theory Spec2Isabelle
  imports Main "HOL-Library.AList"
begin

section \<open>Values, errors and dependency graphs\<close>

text \<open>
  A JavaScript value that the engine stores or passes on is either \<open>undefined\<close> or some
  payload; the engine never inspects a payload, so its type is a parameter. Reading an
  absent property of an object gives \<open>undefined\<close>.
\<close>

datatype 'a val = Undefined | Val 'a

definition read_prop :: "(string \<rightharpoonup> 'a val) \<Rightarrow> string \<Rightarrow> 'a val" where
  "read_prop obj k = (case obj k of None \<Rightarrow> Undefined | Some v \<Rightarrow> v)"

text \<open>
  A thrown value: an \<open>Error\<close> object with its \<open>message\<close> and the \<open>originalError\<close>
  property the engine attaches, or any other value, kept as the text that \<open>String(error)\<close>
  gives for it (the only thing the engine reads of such a value).
\<close>

datatype thrown = JsError string "thrown option" | NonError string

fun error_message :: "thrown \<Rightarrow> string" where
  "error_message (JsError m orig) = m"
| "error_message (NonError s) = s"

fun originalError :: "thrown \<Rightarrow> thrown option" where
  "originalError (JsError m orig) = orig"
| "originalError (NonError s) = None"

text \<open>
  A \<open>Record<string, Array<string>>\<close> is an association list of its own properties in
  the order of \<open>Object.keys\<close>; \<open>dependencies[node] || []\<close> is \<open>deps_of\<close>, a read of an own
  property.
\<close>

type_synonym graph = "(string \<times> string list) list"

definition keys :: "(string \<times> 'a) list \<Rightarrow> string list" where
  "keys r = map fst r"

definition has_key :: "string \<Rightarrow> (string \<times> 'a) list \<Rightarrow> bool" where
  "has_key k r \<longleftrightarrow> map_of r k \<noteq> None"

definition deps_of :: "graph \<Rightarrow> string \<Rightarrow> string list" where
  "deps_of dependencies node = (case map_of dependencies node of None \<Rightarrow> [] | Some ds \<Rightarrow> ds)"

definition all_nodes :: "graph \<Rightarrow> string set" where
  "all_nodes g = set (map fst g)"

text \<open>
  The records of the program are plain objects, which inherit the members of
  \<open>Object.prototype\<close>: for a name of this list that is not an own property, a read
  \<open>obj[name]\<close> gives the inherited member (a function or object, truthy) and not
  \<open>undefined\<close>, and \<open>name in obj\<close> is true. The definitions here read own properties
  only, so they say what the code does for the graphs in which no such read happens:
  \<open>own_lookups\<close> is enough for a graph that is only read with \<open>dependencies[node]\<close>
  (a name that is a key is read as an own property), \<open>plain_names\<close> is for a graph whose
  names are also used as properties of the marker and memo objects, which start empty.
\<close>

definition Object_prototype :: "string list" where
  "Object_prototype =
     [''constructor'', ''hasOwnProperty'', ''isPrototypeOf'', ''propertyIsEnumerable'',
      ''toLocaleString'', ''toString'', ''valueOf'', ''__proto__'', ''__defineGetter__'',
      ''__defineSetter__'', ''__lookupGetter__'', ''__lookupSetter__'']"

text \<open>\<open>name in obj\<close> for a plain object \<open>obj\<close>: an own or an inherited property.\<close>

definition in_object :: "string \<Rightarrow> (string \<times> 'a) list \<Rightarrow> bool" where
  "in_object k r \<longleftrightarrow> has_key k r \<or> k \<in> set Object_prototype"

definition graph_names :: "graph \<Rightarrow> string list" where
  "graph_names g = map fst g @ concat (map snd g)"


definition plain_names :: "graph \<Rightarrow> bool" where
  "plain_names g \<longleftrightarrow> (\<forall>n \<in> set (graph_names g). n \<notin> set Object_prototype)"

definition unmarked :: "graph \<Rightarrow> string set \<Rightarrow> nat" where
  "unmarked g m = card (all_nodes g - m)"

lemma deps_of_nonempty_key: "deps_of g n \<noteq> [] \<Longrightarrow> n \<in> all_nodes g"
  by (auto simp: deps_of_def all_nodes_def split: option.splits dest: map_of_SomeD intro: rev_image_eqI)

lemma unmarked_insert: "n \<in> all_nodes g \<Longrightarrow> n \<notin> m \<Longrightarrow> unmarked g (insert n m) < unmarked g m"
  unfolding unmarked_def all_nodes_def
  by (intro psubset_card_mono) auto

section \<open>Cycle detection: \<open>hasCircularDependency\<close>\<close>

text \<open>
  The two marker objects \<open>visited\<close> and \<open>recStack\<close> of \<open>hasCircularDependency\<close> only
  ever hold \<open>true\<close> or \<open>false\<close> and are only read for truthiness: each is the set of
  names marked \<open>true\<close> (\<open>seen\<close> is the source's \<open>visited\<close>). They are plain objects, so
  this is what the code reads for the names of a graph with \<open>plain_names\<close>.
\<close>

record cycle_state =
  seen :: "string set"
  recStack :: "string set"

function (sequential) hasCycle :: "graph \<Rightarrow> string \<Rightarrow> cycle_state \<Rightarrow> bool \<times> cycle_state"
  and hasCycle_deps :: "graph \<Rightarrow> string list \<Rightarrow> cycle_state \<Rightarrow> bool \<times> cycle_state" where
  "hasCycle dependencies node c =
     (if node \<notin> seen c
      then (case hasCycle_deps dependencies (deps_of dependencies node)
                   (c\<lparr>seen := insert node (seen c), recStack := insert node (recStack c)\<rparr>) of
              (True, c') \<Rightarrow> (True, c')
            | (False, c') \<Rightarrow> (False, c'\<lparr>recStack := recStack c' - {node}\<rparr>))
      else (False, c\<lparr>recStack := recStack c - {node}\<rparr>))"
| "hasCycle_deps dependencies [] c = (False, c)"
| "hasCycle_deps dependencies (dep # deps) c =
     (if dep \<notin> seen c
      then (case hasCycle dependencies dep c of
              (True, c') \<Rightarrow> (True, c')
            | (False, c') \<Rightarrow>
                if dep \<in> recStack c' then (True, c') else hasCycle_deps dependencies deps c')
      else if dep \<in> recStack c then (True, c)
      else hasCycle_deps dependencies deps c)"
  by pat_completeness auto

text \<open>Marks are never removed from \<open>seen\<close>; the recursion ends because every call marks a new key.\<close>

lemma hasCycle_seen_dom:
  "hasCycle_hasCycle_deps_dom (Inl (g, n, c)) \<Longrightarrow> seen c \<subseteq> seen (snd (hasCycle g n c))"
  "hasCycle_hasCycle_deps_dom (Inr (g, ds, c)) \<Longrightarrow> seen c \<subseteq> seen (snd (hasCycle_deps g ds c))"
proof (induct g n c and g ds c rule: hasCycle_hasCycle_deps.pinduct)
  case (1 g n c)
  note dom = "1.hyps"(1)
  show ?case
  proof (cases "n \<in> seen c")
    case True
    with dom show ?thesis by (simp add: hasCycle.psimps)
  next
    case False
    let ?c0 = "c\<lparr>seen := insert n (seen c), recStack := insert n (recStack c)\<rparr>"
    obtain b c1 where r: "hasCycle_deps g (deps_of g n) ?c0 = (b, c1)"
      by (cases "hasCycle_deps g (deps_of g n) ?c0")
    from "1.hyps"(2)[OF False] r have "seen ?c0 \<subseteq> seen c1" by simp
    then have "seen c \<subseteq> seen c1" by auto
    with False dom r show ?thesis by (cases b) (simp_all add: hasCycle.psimps)
  qed
next
  case (2 g c)
  then show ?case by (simp add: hasCycle_deps.psimps)
next
  case (3 g d ds c)
  note dom = "3.hyps"(1)
  show ?case
  proof (cases "d \<in> seen c")
    case True
    with dom "3.hyps"(4) show ?thesis by (simp add: hasCycle_deps.psimps)
  next
    case False
    obtain b c1 where r: "hasCycle g d c = (b, c1)" by (cases "hasCycle g d c")
    from "3.hyps"(2)[OF False] r have s1: "seen c \<subseteq> seen c1" by simp
    show ?thesis
    proof (cases "b \<or> d \<in> recStack c1")
      case True
      with False dom r s1 show ?thesis by (cases b) (simp_all add: hasCycle_deps.psimps)
    next
      case nb: False
      then have b: "\<not> b" and nr: "d \<notin> recStack c1" by simp_all
      from b r have r': "(False, c1) = hasCycle g d c" by simp
      from "3.hyps"(3)[OF False r' refl nr] have "seen c1 \<subseteq> seen (snd (hasCycle_deps g ds c1))"
        by simp
      with s1 False dom r b nr show ?thesis by (simp add: hasCycle_deps.psimps)
    qed
  qed
qed

termination hasCycle
proof (relation "inv_image (less_than <*lex*> less_than)
       (\<lambda>x. case x of
          Inl (g, n, c) \<Rightarrow> (2 * unmarked g (seen c) + 1, 0)
        | Inr (g, ds, c) \<Rightarrow>
            (if ds = [] then (0, 0) else (2 * unmarked g (seen c) + 2, length ds)))", goal_cases)
  case 1
  show ?case by (intro wf_inv_image wf_lex_prod wf_less_than)
next
  case (2 g n c)
  then show ?case
    using unmarked_insert[of n g "seen c"] deps_of_nonempty_key[of g n]
    by auto
next
  case (3 g d ds c)
  then show ?case by simp
next
  case (4 g d ds c x y)
  from 4 have dm: "hasCycle_hasCycle_deps_dom (Inl (g, d, c))" and xy: "(x, y) = hasCycle g d c"
    by simp_all
  from hasCycle_seen_dom(1)[OF dm] xy have "seen c \<subseteq> seen y" by (metis snd_conv)
  then have "unmarked g (seen y) \<le> unmarked g (seen c)"
    unfolding unmarked_def all_nodes_def by (intro card_mono) auto
  then show ?case by auto
next
  case (5 g d ds c)
  then show ?case by auto
qed

declare hasCycle.simps [simp del]

fun hasCycle_nodes :: "graph \<Rightarrow> string list \<Rightarrow> cycle_state \<Rightarrow> bool" where
  "hasCycle_nodes dependencies [] c = False"
| "hasCycle_nodes dependencies (node # nodes) c =
     (case hasCycle dependencies node c of
        (True, c') \<Rightarrow> True
      | (False, c') \<Rightarrow> hasCycle_nodes dependencies nodes c')"

text \<open>\<open>if (startNode)\<close> is false for an absent argument and for the empty string.\<close>

definition hasCircularDependency :: "graph \<Rightarrow> string option \<Rightarrow> bool" where
  "hasCircularDependency dependencies startNode =
     (let c0 = \<lparr>seen = {}, recStack = {}\<rparr> in
      case startNode of
        Some node \<Rightarrow>
          if node \<noteq> [] then fst (hasCycle dependencies node c0)
          else hasCycle_nodes dependencies (keys dependencies) c0
      | None \<Rightarrow> hasCycle_nodes dependencies (keys dependencies) c0)"

section \<open>Topological sort: \<open>topologicalSort\<close>\<close>

text \<open>
  \<open>visit\<close> is the closure of \<open>topologicalSort\<close>; the three variables it captures
  (\<open>result\<close>, \<open>visited\<close>, \<open>temp\<close>) are the state it passes on. A \<open>throw\<close> is \<open>Inl\<close>.
\<close>

record sort_state =
  result :: "string list"
  visited :: "string set"
  temp :: "string set"

function (sequential) visit :: "graph \<Rightarrow> string \<Rightarrow> sort_state \<Rightarrow> thrown + sort_state"
  and visit_deps :: "graph \<Rightarrow> string list \<Rightarrow> sort_state \<Rightarrow> thrown + sort_state" where
  "visit dependencies node s =
     (if node \<in> temp s then Inl (JsError (''Circular dependency detected: '' @ node) None)
      else if node \<in> visited s then Inr s
      else (case visit_deps dependencies (deps_of dependencies node)
                   (s\<lparr>temp := insert node (temp s)\<rparr>) of
              Inl e \<Rightarrow> Inl e
            | Inr s' \<Rightarrow> Inr (s'\<lparr>temp := temp s' - {node}, visited := insert node (visited s'),
                               result := result s' @ [node]\<rparr>)))"
| "visit_deps dependencies [] s = Inr s"
| "visit_deps dependencies (dep # deps) s =
     (case visit dependencies dep s of
        Inl e \<Rightarrow> Inl e
      | Inr s' \<Rightarrow> visit_deps dependencies deps s')"
  by pat_completeness auto

text \<open>A visit that returns leaves \<open>temp\<close> as it found it; this bounds the depth of the recursion.\<close>

lemma visit_temp_dom:
  "visit_visit_deps_dom (Inl (g, n, s)) \<Longrightarrow> visit g n s = Inr s' \<Longrightarrow> temp s' = temp s"
  "visit_visit_deps_dom (Inr (g, ds, s)) \<Longrightarrow> visit_deps g ds s = Inr s'' \<Longrightarrow> temp s'' = temp s"
proof (induct g n s and g ds s arbitrary: s' and s'' rule: visit_visit_deps.pinduct)
  case (1 g n s)
  note dom = "1.hyps"(1)
  show ?case
  proof (cases "n \<in> temp s")
    case True
    with "1.prems" dom show ?thesis by (simp add: visit.psimps)
  next
    case nt: False
    show ?thesis
    proof (cases "n \<in> visited s")
      case True
      with nt "1.prems" dom show ?thesis by (simp add: visit.psimps)
    next
      case nv: False
      from nt nv "1.prems" dom obtain s1 where
        s1: "visit_deps g (deps_of g n) (s\<lparr>temp := insert n (temp s)\<rparr>) = Inr s1"
        and s': "s' = s1\<lparr>temp := temp s1 - {n}, visited := insert n (visited s1),
                          result := result s1 @ [n]\<rparr>"
        by (cases "visit_deps g (deps_of g n) (s\<lparr>temp := insert n (temp s)\<rparr>)")
           (simp_all add: visit.psimps)
      from "1.hyps"(2)[OF nt nv s1] have "temp s1 = insert n (temp s)" by simp
      with s' nt show ?thesis by simp
    qed
  qed
next
  case (2 g s)
  then show ?case by (simp add: visit_deps.psimps)
next
  case (3 g d ds s)
  from "3.prems" "3.hyps"(1) obtain s1 where
    s1: "visit g d s = Inr s1" and s2: "visit_deps g ds s1 = Inr s''"
    by (cases "visit g d s") (simp_all add: visit_deps.psimps)
  from "3.hyps"(2)[OF s1] "3.hyps"(3)[OF s1 s2] show ?case by simp
qed

termination visit
proof (relation "inv_image (less_than <*lex*> less_than)
       (\<lambda>x. case x of
          Inl (g, n, s) \<Rightarrow> (2 * unmarked g (temp s) + 1, 0)
        | Inr (g, ds, s) \<Rightarrow>
            (if ds = [] then (0, 0) else (2 * unmarked g (temp s) + 2, length ds)))", goal_cases)
  case 1
  show ?case by (intro wf_inv_image wf_lex_prod wf_less_than)
next
  case (2 g n s)
  then show ?case
    using unmarked_insert[of n g "temp s"] deps_of_nonempty_key[of g n]
    by auto
next
  case (3 g d ds s)
  then show ?case by simp
next
  case (4 g d ds s s')
  then show ?case
    using visit_temp_dom(1)[of g d s s'] by auto
qed

declare visit.simps [simp del]

fun sort_nodes :: "graph \<Rightarrow> string list \<Rightarrow> sort_state \<Rightarrow> thrown + sort_state" where
  "sort_nodes dependencies [] s = Inr s"
| "sort_nodes dependencies (node # nodes) s =
     (if node \<notin> visited s
      then (case visit dependencies node s of
              Inl e \<Rightarrow> Inl e
            | Inr s' \<Rightarrow> sort_nodes dependencies nodes s')
      else sort_nodes dependencies nodes s)"

definition topologicalSort :: "graph \<Rightarrow> thrown + string list" where
  "topologicalSort dependencies =
     (case sort_nodes dependencies (keys dependencies) \<lparr>result = [], visited = {}, temp = {}\<rparr> of
        Inl e \<Rightarrow> Inl e
      | Inr s \<Rightarrow> Inr (result s))"

section \<open>The execution model\<close>

text \<open>
  What a step implementation or a flow action gives back: it throws, or it returns a
  value. \<open>isPromise\<close> holds of a returned \<open>Promise\<close> or thenable (\<open>Deferred\<close>) and of
  nothing else (\<open>Plain\<close>). A deferred value is fulfilled with a value, or rejected with a
  thrown value after some number of ticks (only the order of rejections is read from the
  ticks), or it never settles.
\<close>

datatype 'a promise = Fulfills "'a val" | Rejects nat thrown | NeverSettles

datatype 'a returned = Plain (plain: "'a val") | Deferred (deferred: "'a promise")

datatype 'a outcome = Returns "'a returned" | Throws thrown

fun isPromise :: "'a returned \<Rightarrow> bool" where
  "isPromise (Plain v) = False"
| "isPromise (Deferred p) = True"

text \<open>
  User code is called with its arguments and the state \<open>'w\<close> of everything it can touch
  outside the engine (a counter it closes over, say); it gives back its outcome and the
  new state. User code is taken not to assign to the \<open>context\<close> object or to the container
  store it may hold a reference to.
\<close>

type_synonym ('a, 'w) StepImplementation = "(string \<rightharpoonup> 'a val) \<Rightarrow> 'w \<Rightarrow> 'a outcome \<times> 'w"

type_synonym ('a, 'w) FlowAction = "'a val \<Rightarrow> (string \<rightharpoonup> 'a val) \<Rightarrow> 'w \<Rightarrow> 'a outcome \<times> 'w"

record ('a, 'w) FlowStepDefinition =
  action :: "('a, 'w) FlowAction"

record ('a, 'w) FlowDefinition =
  steps :: "(string \<times> ('a, 'w) FlowStepDefinition) list"
  dependencies :: graph

text \<open>
  The step names of a flow are used as property names of plain objects (\<open>flow.steps\<close>,
  the container store, \<open>context\<close>, \<open>results\<close>); \<open>plain_flow\<close> says that none of them is
  the name of a member of \<open>Object.prototype\<close>.
\<close>

definition plain_flow :: "('a, 'w) FlowDefinition \<Rightarrow> bool" where
  "plain_flow flow \<longleftrightarrow>
     plain_names (dependencies flow) \<and> (\<forall>n \<in> set (map fst (steps flow)). n \<notin> set Object_prototype)"

text \<open>
  The read-only fields of a \<open>WorkflowInstance\<close> (its own \<open>steps\<close> and \<open>dependencies\<close>
  are \<open>wf_steps\<close> and \<open>wf_dependencies\<close> here, apart from a flow's). Its one mutable
  field, \<open>containers\<close>, is in the \<open>machine\<close> state, together with the state of the user
  code and a log of the calls the engine makes to user code, each with its arguments and
  its outcome. The engine only appends to the log and never reads it.
\<close>

record ('a, 'w) WorkflowInstance =
  wf_steps :: "(string \<times> ('a, 'w) StepImplementation) list"
  wf_dependencies :: graph
  flows :: "(string \<times> ('a, 'w) FlowDefinition) list"
  buildFlowName :: string

datatype 'a call =
    StepCall string "string \<rightharpoonup> 'a val" "'a outcome"
  | ActionCall string "'a val" "string \<rightharpoonup> 'a val" "'a outcome"

fun call_name :: "'a call \<Rightarrow> string" where
  "call_name (StepCall n inputData out) = n"
| "call_name (ActionCall n container c out) = n"

fun call_outcome :: "'a call \<Rightarrow> 'a outcome" where
  "call_outcome (StepCall n inputData out) = out"
| "call_outcome (ActionCall n container c out) = out"

text \<open>The mapping a call was given: \<open>inputData\<close> for an implementation, \<open>context\<close> for an action.\<close>

fun call_map :: "'a call \<Rightarrow> (string \<rightharpoonup> 'a val)" where
  "call_map (StepCall n inputData out) = inputData"
| "call_map (ActionCall n container c out) = c"

fun is_StepCall :: "'a call \<Rightarrow> bool" where
  "is_StepCall (StepCall n inputData out) = True"
| "is_StepCall (ActionCall n container c out) = False"

record ('a, 'w) machine =
  containers :: "string \<rightharpoonup> 'a val"
  world :: 'w
  calls :: "'a call list"

text \<open>One run of a flow also has its two local objects, \<open>context\<close> (here \<open>ctx\<close>) and \<open>results\<close>.\<close>

record ('a, 'w) run_state = "('a, 'w) machine" +
  ctx :: "string \<rightharpoonup> 'a val"
  results :: "string \<rightharpoonup> 'a val"

record 'a execute_result =
  flow_results :: "string \<rightharpoonup> 'a val"
  success :: bool

text \<open>
  How a call ends for its caller: it returns (a promise resolves), it throws (a promise
  rejects), or its promise never settles.
\<close>

datatype 'r completion = Returned 'r | Thrown thrown | NeverSettled

definition start_run :: "('a, 'w) machine \<Rightarrow> ('a, 'w) run_state" where
  "start_run m = machine.extend m (run_state.fields Map.empty Map.empty)"

definition end_run :: "('a, 'w) run_state \<Rightarrow> ('a, 'w) machine" where
  "end_run s = machine.truncate s"

definition quoted :: "string \<Rightarrow> string" where
  "quoted s = [CHR 0x22] @ s @ [CHR 0x22]"

text \<open>The \<open>catch\<close> block of both execution loops.\<close>

definition wrap_error :: "string \<Rightarrow> thrown \<Rightarrow> thrown" where
  "wrap_error stepName error =
     JsError (''Step '' @ quoted stepName @ '' failed: '' @ error_message error) (Some error)"

definition step_promise_error :: "string \<Rightarrow> thrown" where
  "step_promise_error stepName =
     JsError (''Step '' @ quoted stepName
       @ '' returned a Promise, but execute requires synchronous execution. Use executeAsync instead.'')
       None"

definition action_promise_error :: "string \<Rightarrow> thrown" where
  "action_promise_error stepName =
     JsError (''Flow action for '' @ quoted stepName
       @ '' returned a Promise, but execute requires synchronous execution. Use executeAsync instead.'')
       None"

text \<open>Calling \<open>this.steps[stepName]\<close> when the registry has no such entry is a \<open>TypeError\<close>.\<close>

definition not_a_function :: thrown where
  "not_a_function = JsError ''this.steps[stepName] is not a function'' None"

definition flow_missing :: "string \<Rightarrow> thrown" where
  "flow_missing flowName = JsError (''Flow '' @ quoted flowName @ '' does not exist'') None"

definition inputData_of :: "string list \<Rightarrow> (string \<rightharpoonup> 'a val) \<Rightarrow> (string \<rightharpoonup> 'a val)" where
  "inputData_of deps store =
     foldl (\<lambda>inputData dep. inputData(dep \<mapsto> read_prop store dep)) Map.empty deps"

subsection \<open>Blocking mode: \<open>execute\<close>\<close>

text \<open>The body of the loop of \<open>execute\<close> for one step name; \<open>Some e\<close> is \<open>throw e\<close>.\<close>

definition execute_step ::
  "('a, 'w) WorkflowInstance \<Rightarrow> string \<Rightarrow> ('a, 'w) FlowDefinition \<Rightarrow> string
     \<Rightarrow> ('a, 'w) run_state \<Rightarrow> thrown option \<times> ('a, 'w) run_state" where
  "execute_step w flowName flow stepName s =
     (case map_of (steps flow) stepName of
        None \<Rightarrow> (None, s)
      | Some stepDef \<Rightarrow>
          if flowName = buildFlowName w then
            (let inputData = inputData_of (deps_of (wf_dependencies w) stepName) (containers s) in
             case map_of (wf_steps w) stepName of
               None \<Rightarrow> (Some (wrap_error stepName not_a_function), s)
             | Some impl \<Rightarrow>
                 (case impl inputData (world s) of
                    (out, world') \<Rightarrow>
                      (let s1 = s\<lparr>world := world', calls := calls s @ [StepCall stepName inputData out]\<rparr> in
                       case out of
                         Throws error \<Rightarrow> (Some (wrap_error stepName error), s1)
                       | Returns stepResult \<Rightarrow>
                           if isPromise stepResult
                           then (Some (wrap_error stepName (step_promise_error stepName)), s1)
                           else (None, s1\<lparr>containers := (containers s1)(stepName \<mapsto> plain stepResult),
                                         ctx := (ctx s1)(stepName \<mapsto> plain stepResult),
                                         results := (results s1)(stepName \<mapsto> plain stepResult)\<rparr>))))
          else
            (let container = read_prop (containers s) stepName in
             case action stepDef container (ctx s) (world s) of
               (out, world') \<Rightarrow>
                 (let s1 = s\<lparr>world := world',
                              calls := calls s @ [ActionCall stepName container (ctx s) out]\<rparr> in
                  case out of
                    Throws error \<Rightarrow> (Some (wrap_error stepName error), s1)
                  | Returns actionResult \<Rightarrow>
                      if isPromise actionResult
                      then (Some (wrap_error stepName (action_promise_error stepName)), s1)
                      else (None, s1\<lparr>ctx := (ctx s1)(stepName \<mapsto> plain actionResult),
                                    results := (results s1)(stepName \<mapsto> plain actionResult)\<rparr>))))"

fun execute_steps ::
  "('a, 'w) WorkflowInstance \<Rightarrow> string \<Rightarrow> ('a, 'w) FlowDefinition \<Rightarrow> string list
     \<Rightarrow> ('a, 'w) run_state \<Rightarrow> thrown option \<times> ('a, 'w) run_state" where
  "execute_steps w flowName flow [] s = (None, s)"
| "execute_steps w flowName flow (stepName # rest) s =
     (case execute_step w flowName flow stepName s of
        (Some e, s') \<Rightarrow> (Some e, s')
      | (None, s') \<Rightarrow> execute_steps w flowName flow rest s')"

definition calculateFlowExecutionOrder :: "('a, 'w) FlowDefinition \<Rightarrow> thrown + string list" where
  "calculateFlowExecutionOrder flow = topologicalSort (dependencies flow)"

definition execute ::
  "('a, 'w) WorkflowInstance \<Rightarrow> string \<Rightarrow> ('a, 'w) machine
     \<Rightarrow> 'a execute_result completion \<times> ('a, 'w) machine" where
  "execute w flowName m =
     (case map_of (flows w) flowName of
        None \<Rightarrow> (Thrown (flow_missing flowName), m)
      | Some flow \<Rightarrow>
          (case calculateFlowExecutionOrder flow of
             Inl e \<Rightarrow> (Thrown e, m)
           | Inr executionOrder \<Rightarrow>
               (case execute_steps w flowName flow executionOrder (start_run m) of
                  (Some e, s) \<Rightarrow> (Thrown e, end_run s)
                | (None, s) \<Rightarrow>
                    (Returned \<lparr>flow_results = results s, success = True\<rparr>, end_run s))))"

definition refresh ::
  "('a, 'w) WorkflowInstance \<Rightarrow> ('a, 'w) machine \<Rightarrow> unit completion \<times> ('a, 'w) machine" where
  "refresh w m =
     (case execute w (buildFlowName w) m of
        (Returned r, m') \<Rightarrow> (Returned (), m')
      | (Thrown error, m') \<Rightarrow> (Thrown error, m')
      | (NeverSettled, m') \<Rightarrow> (NeverSettled, m'))"

subsection \<open>Level scheduler: \<open>groupStepsByLevel\<close>\<close>

text \<open>
  \<open>getStepLevel\<close> recurses along dependency edges and has no guard of its own against a
  cycle; the first argument bounds the depth of the recursion, and \<open>None\<close> is the bound
  reached. \<open>stepLevels\<close> is the memo object, a plain object that starts empty: for the
  names of a graph with \<open>plain_names\<close>, \<open>stepName in stepLevels\<close> is the test whether the
  map has the name. \<open>maxDepLevel\<close> starts at \<open>-1\<close>, so it is an integer; a level is
  \<open>maxDepLevel + 1\<close> and never negative.
\<close>

fun getStepLevel ::
    "nat \<Rightarrow> graph \<Rightarrow> string \<Rightarrow> (string \<rightharpoonup> nat) \<Rightarrow> (nat \<times> (string \<rightharpoonup> nat)) option"
  and maxDepLevel ::
    "nat \<Rightarrow> graph \<Rightarrow> string list \<Rightarrow> int \<Rightarrow> (string \<rightharpoonup> nat)
       \<Rightarrow> (int \<times> (string \<rightharpoonup> nat)) option" where
  "getStepLevel 0 deps stepName stepLevels = None"
| "getStepLevel (Suc depth) deps stepName stepLevels =
     (case stepLevels stepName of
        Some level \<Rightarrow> Some (level, stepLevels)
      | None \<Rightarrow>
          if deps_of deps stepName = [] then Some (0, stepLevels(stepName \<mapsto> 0))
          else (case maxDepLevel depth deps (deps_of deps stepName) (- 1) stepLevels of
                  None \<Rightarrow> None
                | Some (m, stepLevels') \<Rightarrow>
                    Some (nat (m + 1), stepLevels'(stepName \<mapsto> nat (m + 1)))))"
| "maxDepLevel depth deps [] m stepLevels = Some (m, stepLevels)"
| "maxDepLevel depth deps (dep # rest) m stepLevels =
     (case getStepLevel depth deps dep stepLevels of
        None \<Rightarrow> None
      | Some (depLevel, stepLevels') \<Rightarrow>
          maxDepLevel depth deps rest (max m (int depLevel)) stepLevels')"

text \<open>\<open>while (levels.length <= level) levels.push([])\<close>, then \<open>levels[level].push(stepName)\<close>.\<close>

definition push_step :: "string list list \<Rightarrow> nat \<Rightarrow> string \<Rightarrow> string list list" where
  "push_step levels level stepName =
     (let levels' = levels @ replicate (Suc level - length levels) []
      in levels'[level := levels' ! level @ [stepName]])"

fun group_steps ::
  "nat \<Rightarrow> graph \<Rightarrow> string list \<Rightarrow> string list list \<times> (string \<rightharpoonup> nat)
     \<Rightarrow> (string list list \<times> (string \<rightharpoonup> nat)) option" where
  "group_steps depth deps [] (levels, stepLevels) = Some (levels, stepLevels)"
| "group_steps depth deps (stepName # rest) (levels, stepLevels) =
     (case getStepLevel depth deps stepName stepLevels of
        None \<Rightarrow> None
      | Some (level, stepLevels') \<Rightarrow>
          group_steps depth deps rest (push_step levels level stepName, stepLevels'))"

definition groupStepsByLevel ::
  "nat \<Rightarrow> ('a, 'w) FlowDefinition \<Rightarrow> string list \<Rightarrow> string list list option" where
  "groupStepsByLevel depth flow executionOrder =
     map_option fst (group_steps depth (dependencies flow) executionOrder ([], Map.empty))"

text \<open>The index of the level a step was put in.\<close>

definition level_of :: "string list list \<Rightarrow> string \<Rightarrow> nat" where
  "level_of levels stepName = length (takeWhile (\<lambda>l. stepName \<notin> set l) levels)"

subsection \<open>Concurrent mode: \<open>executeAsync\<close>\<close>

text \<open>
  Each step of a level is started in turn: its \<open>async\<close> function runs up to its first
  \<open>await\<close>, which leaves one of four things in the step's place: nothing (a step without
  an action), a finished item, a rejection, or a deferred value still awaited.
\<close>

datatype 'a slot =
    NoItem
  | Item string "'a val"
  | Failed thrown
  | Awaiting string "'a promise"

definition dispatch_step ::
  "('a, 'w) WorkflowInstance \<Rightarrow> string \<Rightarrow> ('a, 'w) FlowDefinition \<Rightarrow> string
     \<Rightarrow> ('a, 'w) run_state \<Rightarrow> 'a slot \<times> ('a, 'w) run_state" where
  "dispatch_step w flowName flow stepName s =
     (case map_of (steps flow) stepName of
        None \<Rightarrow> (NoItem, s)
      | Some stepDef \<Rightarrow>
          if flowName = buildFlowName w then
            (let inputData = inputData_of (deps_of (wf_dependencies w) stepName) (containers s) in
             case map_of (wf_steps w) stepName of
               None \<Rightarrow> (Failed (wrap_error stepName not_a_function), s)
             | Some impl \<Rightarrow>
                 (case impl inputData (world s) of
                    (out, world') \<Rightarrow>
                      (let s1 = s\<lparr>world := world', calls := calls s @ [StepCall stepName inputData out]\<rparr> in
                       case out of
                         Throws error \<Rightarrow> (Failed (wrap_error stepName error), s1)
                       | Returns stepResult \<Rightarrow>
                           if isPromise stepResult
                           then (Awaiting stepName (deferred stepResult), s1)
                           else (Item stepName (plain stepResult),
                                 s1\<lparr>containers := (containers s1)(stepName \<mapsto> plain stepResult)\<rparr>))))
          else
            (let container = read_prop (containers s) stepName in
             case action stepDef container (ctx s) (world s) of
               (out, world') \<Rightarrow>
                 (let s1 = s\<lparr>world := world',
                              calls := calls s @ [ActionCall stepName container (ctx s) out]\<rparr> in
                  case out of
                    Throws error \<Rightarrow> (Failed (wrap_error stepName error), s1)
                  | Returns actionResult \<Rightarrow>
                      if isPromise actionResult
                      then (Awaiting stepName (deferred actionResult), s1)
                      else (Item stepName (plain actionResult), s1))))"

fun dispatch_level ::
  "('a, 'w) WorkflowInstance \<Rightarrow> string \<Rightarrow> ('a, 'w) FlowDefinition \<Rightarrow> string list
     \<Rightarrow> ('a, 'w) run_state \<Rightarrow> 'a slot list \<times> ('a, 'w) run_state" where
  "dispatch_level w flowName flow [] s = ([], s)"
| "dispatch_level w flowName flow (stepName # rest) s =
     (case dispatch_step w flowName flow stepName s of
        (sl, s1) \<Rightarrow>
          (case dispatch_level w flowName flow rest s1 of
             (sls, s2) \<Rightarrow> (sl # sls, s2)))"

text \<open>
  \<open>Promise.all\<close> rejects with the first rejection it sees. A step that threw before its
  first \<open>await\<close> is already rejected when \<open>Promise.all\<close> subscribes, so it comes before
  every rejection of an awaited value, and the earliest such step in the level wins; among
  the awaited values the one that rejects at the lowest tick wins, the earlier step on a tie.
\<close>

fun first_failed :: "'a slot list \<Rightarrow> thrown option" where
  "first_failed [] = None"
| "first_failed (Failed e # sls) = Some e"
| "first_failed (sl # sls) = first_failed sls"

fun first_rejected :: "'a slot list \<Rightarrow> (nat \<times> thrown) option" where
  "first_rejected [] = None"
| "first_rejected (Awaiting stepName (Rejects t e) # sls) =
     (case first_rejected sls of
        None \<Rightarrow> Some (t, wrap_error stepName e)
      | Some (t', e') \<Rightarrow> if t \<le> t' then Some (t, wrap_error stepName e) else Some (t', e'))"
| "first_rejected (sl # sls) = first_rejected sls"

definition level_rejection :: "'a slot list \<Rightarrow> thrown option" where
  "level_rejection sls =
     (case first_failed sls of
        Some e \<Rightarrow> Some e
      | None \<Rightarrow> map_option snd (first_rejected sls))"

fun never_settles :: "'a slot list \<Rightarrow> bool" where
  "never_settles [] = False"
| "never_settles (Awaiting stepName NeverSettles # sls) = True"
| "never_settles (sl # sls) = never_settles sls"

text \<open>
  After its \<open>await\<close> a build-flow step stores the fulfilled value in the container store,
  whether or not another step of the level has rejected meanwhile: \<open>commit_awaited\<close> is the
  store once every awaited value of the level that settles has settled.
\<close>

fun commit_awaited :: "'a slot list \<Rightarrow> ('a, 'w) run_state \<Rightarrow> ('a, 'w) run_state" where
  "commit_awaited [] s = s"
| "commit_awaited (Awaiting stepName (Fulfills v) # sls) s =
     commit_awaited sls (s\<lparr>containers := (containers s)(stepName \<mapsto> v)\<rparr>)"
| "commit_awaited (sl # sls) s = commit_awaited sls s"

text \<open>The loop over \<open>levelResults\<close>, run when every promise of the level is fulfilled.\<close>

fun collect_level :: "'a slot list \<Rightarrow> ('a, 'w) run_state \<Rightarrow> ('a, 'w) run_state" where
  "collect_level [] s = s"
| "collect_level (Item stepName v # sls) s =
     collect_level sls (s\<lparr>ctx := (ctx s)(stepName \<mapsto> v), results := (results s)(stepName \<mapsto> v)\<rparr>)"
| "collect_level (Awaiting stepName (Fulfills v) # sls) s =
     collect_level sls (s\<lparr>ctx := (ctx s)(stepName \<mapsto> v), results := (results s)(stepName \<mapsto> v)\<rparr>)"
| "collect_level (sl # sls) s = collect_level sls s"

fun execute_levels ::
  "('a, 'w) WorkflowInstance \<Rightarrow> string \<Rightarrow> ('a, 'w) FlowDefinition \<Rightarrow> string list list
     \<Rightarrow> ('a, 'w) run_state \<Rightarrow> unit completion \<times> ('a, 'w) run_state" where
  "execute_levels w flowName flow [] s = (Returned (), s)"
| "execute_levels w flowName flow (levelSteps # rest) s =
     (case dispatch_level w flowName flow levelSteps s of
        (sls, s1) \<Rightarrow>
          (let s2 = (if flowName = buildFlowName w then commit_awaited sls s1 else s1) in
           case level_rejection sls of
             Some e \<Rightarrow> (Thrown e, s2)
           | None \<Rightarrow>
               if never_settles sls then (NeverSettled, s2)
               else execute_levels w flowName flow rest (collect_level sls s2)))"

text \<open>Running out of stack in \<open>groupStepsByLevel\<close> is a \<open>RangeError\<close>.\<close>

definition stack_exhausted :: thrown where
  "stack_exhausted = JsError ''Maximum call stack size exceeded'' None"

definition executeAsync ::
  "('a, 'w) WorkflowInstance \<Rightarrow> string \<Rightarrow> ('a, 'w) machine
     \<Rightarrow> 'a execute_result completion \<times> ('a, 'w) machine" where
  "executeAsync w flowName m =
     (case map_of (flows w) flowName of
        None \<Rightarrow> (Thrown (flow_missing flowName), m)
      | Some flow \<Rightarrow>
          (case calculateFlowExecutionOrder flow of
             Inl e \<Rightarrow> (Thrown e, m)
           | Inr executionOrder \<Rightarrow>
               (case groupStepsByLevel (Suc (length executionOrder)) flow executionOrder of
                  None \<Rightarrow> (Thrown stack_exhausted, m)
                | Some levelGroups \<Rightarrow>
                    (case execute_levels w flowName flow levelGroups (start_run m) of
                       (Returned u, s) \<Rightarrow>
                         (Returned \<lparr>flow_results = results s, success = True\<rparr>, end_run s)
                     | (Thrown e, s) \<Rightarrow> (Thrown e, end_run s)
                     | (NeverSettled, s) \<Rightarrow> (NeverSettled, end_run s)))))"

section \<open>The builder: \<open>WorkflowBuilder\<close> and \<open>FlowBuilder\<close>\<close>

text \<open>
  The four private fields of a \<open>WorkflowBuilder\<close>. Assigning \<open>obj[k] = v\<close> keeps the place
  of an existing key and appends a new one, which is \<open>AList.update\<close> (for names that are
  not array indices, which \<open>Object.keys\<close> lists first, in numeric order, and not
  \<open>__proto__\<close>). The \<open>in\<close> tests of the builder are \<open>in_object\<close>.
\<close>

record ('a, 'w) WorkflowBuilder =
  b_steps :: "(string \<times> ('a, 'w) StepImplementation) list"
  b_dependencies :: graph
  b_flows :: "(string \<times> ('a, 'w) FlowDefinition) list"
  b_buildFlowName :: string

text \<open>
  A builder as the program can make it: the name of the build flow is the constant of the
  class, the base graph has every key once, and no name of the base graph or of a flow is
  the name of a member of \<open>Object.prototype\<close>.
\<close>

definition plain_builder :: "('a, 'w) WorkflowBuilder \<Rightarrow> bool" where
  "plain_builder b \<longleftrightarrow>
     b_buildFlowName b = ''__build__''
     \<and> distinct (map fst (b_dependencies b))
     \<and> plain_names (b_dependencies b)
     \<and> (\<forall>entry \<in> set (b_flows b). fst entry \<notin> set Object_prototype \<and> plain_flow (snd entry))"

definition new_WorkflowBuilder :: "('a, 'w) WorkflowBuilder" where
  "new_WorkflowBuilder =
     \<lparr>b_steps = [], b_dependencies = [], b_flows = [], b_buildFlowName = ''__build__''\<rparr>"

text \<open>A \<open>StepImplementer\<close> is the builder and the name of the step being declared.\<close>

definition addStep ::
  "string \<Rightarrow> string list \<Rightarrow> ('a, 'w) WorkflowBuilder
     \<Rightarrow> thrown + (('a, 'w) WorkflowBuilder \<times> string)" where
  "addStep name deps b =
     (if in_object name (b_steps b)
      then Inl (JsError (''Step '' @ quoted name @ '' already exists'') None)
      else (case find (\<lambda>dep. \<not> in_object dep (b_steps b)) deps of
              Some dep \<Rightarrow>
                Inl (JsError (''Dependency '' @ quoted dep @ '' does not exist for step ''
                       @ quoted name) None)
            | None \<Rightarrow>
                Inr (b\<lparr>b_dependencies := AList.update name deps (b_dependencies b)\<rparr>, name)))"

definition addStepWithoutDependencies ::
  "string \<Rightarrow> ('a, 'w) WorkflowBuilder \<Rightarrow> thrown + (('a, 'w) WorkflowBuilder \<times> string)" where
  "addStepWithoutDependencies name b =
     (if in_object name (b_steps b)
      then Inl (JsError (''Step '' @ quoted name @ '' already exists'') None)
      else Inr (b\<lparr>b_dependencies := AList.update name [] (b_dependencies b)\<rparr>, name))"

definition registerImplementation ::
  "string \<Rightarrow> ('a, 'w) StepImplementation \<Rightarrow> ('a, 'w) WorkflowBuilder \<Rightarrow> ('a, 'w) WorkflowBuilder" where
  "registerImplementation name exec b = b\<lparr>b_steps := AList.update name exec (b_steps b)\<rparr>"

definition withImplementation ::
  "('a, 'w) StepImplementation \<Rightarrow> ('a, 'w) WorkflowBuilder \<times> string \<Rightarrow> ('a, 'w) WorkflowBuilder" where
  "withImplementation exec implementer = registerImplementation (snd implementer) exec (fst implementer)"

record ('a, 'w) FlowBuilder =
  workflowBuilder :: "('a, 'w) WorkflowBuilder"
  flowName :: string
  flowSteps :: "(string \<times> ('a, 'w) FlowStepDefinition) list"
  flowDependencies :: graph

definition defineFlow ::
  "string \<Rightarrow> ('a, 'w) WorkflowBuilder \<Rightarrow> thrown + ('a, 'w) FlowBuilder" where
  "defineFlow name b =
     (if in_object name (b_flows b)
      then Inl (JsError (''Flow '' @ quoted name @ '' already exists'') None)
      else Inr \<lparr>workflowBuilder = b, flowName = name, flowSteps = [], flowDependencies = []\<rparr>)"

definition addFlowStep ::
  "string \<Rightarrow> string list \<Rightarrow> ('a, 'w) FlowBuilder \<Rightarrow> thrown + (('a, 'w) FlowBuilder \<times> string)" where
  "addFlowStep stepName deps fb =
     (if in_object stepName (flowSteps fb)
      then Inl (JsError (''Flow step '' @ quoted stepName @ '' already exists in flow ''
                  @ quoted (flowName fb)) None)
      else Inr (fb\<lparr>flowDependencies := AList.update stepName deps (flowDependencies fb)\<rparr>, stepName))"

definition registerFlowAction ::
  "string \<Rightarrow> ('a, 'w) FlowAction \<Rightarrow> ('a, 'w) FlowBuilder \<Rightarrow> ('a, 'w) FlowBuilder" where
  "registerFlowAction stepName act fb =
     fb\<lparr>flowSteps := AList.update stepName \<lparr>action = act\<rparr> (flowSteps fb)\<rparr>"

definition withFlowAction ::
  "('a, 'w) FlowAction \<Rightarrow> ('a, 'w) FlowBuilder \<times> string \<Rightarrow> ('a, 'w) FlowBuilder" where
  "withFlowAction act implementer = registerFlowAction (snd implementer) act (fst implementer)"

definition registerFlow ::
  "string \<Rightarrow> ('a, 'w) FlowDefinition \<Rightarrow> ('a, 'w) WorkflowBuilder \<Rightarrow> ('a, 'w) WorkflowBuilder" where
  "registerFlow name flowDef b = b\<lparr>b_flows := AList.update name flowDef (b_flows b)\<rparr>"

definition endFlow :: "('a, 'w) FlowBuilder \<Rightarrow> ('a, 'w) WorkflowBuilder" where
  "endFlow fb =
     registerFlow (flowName fb) \<lparr>steps = flowSteps fb, dependencies = flowDependencies fb\<rparr>
       (workflowBuilder fb)"

text \<open>
  \<open>createBuildFlow\<close> copies every entry of the base graph and gives each step the action
  \<open>(container) => container\<close>.
\<close>

definition createBuildFlow :: "('a, 'w) WorkflowBuilder \<Rightarrow> ('a, 'w) WorkflowBuilder" where
  "createBuildFlow b =
     b\<lparr>b_flows := AList.update (b_buildFlowName b)
          \<lparr>steps = foldl (\<lambda>buildSteps (stepName, deps).
                      AList.update stepName
                        \<lparr>action = (\<lambda>container c wd. (Returns (Plain container), wd))\<rparr> buildSteps)
                    [] (b_dependencies b),
           dependencies = foldl (\<lambda>buildDependencies (stepName, deps).
                      AList.update stepName deps buildDependencies)
                    [] (b_dependencies b)\<rparr>
          (b_flows b)\<rparr>"

definition checkForCircularDependencies :: "('a, 'w) WorkflowBuilder \<Rightarrow> thrown option" where
  "checkForCircularDependencies b =
     (if hasCircularDependency (b_dependencies b) None
      then Some (JsError ''Circular dependency detected in workflow'' None)
      else None)"

text \<open>The three checks of \<open>validateFlows\<close> on one flow, each the first failure of its loop.\<close>

definition check_flow_steps ::
  "('a, 'w) WorkflowBuilder \<Rightarrow> string \<Rightarrow> ('a, 'w) FlowDefinition \<Rightarrow> thrown option" where
  "check_flow_steps b name flow =
     (case find (\<lambda>stepName. \<not> in_object stepName (b_steps b)) (keys (steps flow)) of
        Some stepName \<Rightarrow>
          Some (JsError (''Flow '' @ quoted name @ '' references step '' @ quoted stepName
                  @ '' which does not exist in the main workflow'') None)
      | None \<Rightarrow> None)"

fun check_step_deps ::
  "('a, 'w) WorkflowBuilder \<Rightarrow> string \<Rightarrow> ('a, 'w) FlowDefinition \<Rightarrow> string \<Rightarrow> string list
     \<Rightarrow> thrown option" where
  "check_step_deps b name flow stepName [] = None"
| "check_step_deps b name flow stepName (dep # deps) =
     (if \<not> in_object dep (b_steps b)
      then Some (JsError (''Flow '' @ quoted name @ '' step '' @ quoted stepName @ '' depends on ''
                   @ quoted dep @ '' which does not exist in the main workflow'') None)
      else if \<not> in_object dep (dependencies flow)
      then Some (JsError (''Flow '' @ quoted name @ '' step '' @ quoted stepName @ '' depends on ''
                   @ quoted dep @ '' which is not part of this flow'') None)
      else check_step_deps b name flow stepName deps)"

fun check_flow_deps ::
  "('a, 'w) WorkflowBuilder \<Rightarrow> string \<Rightarrow> ('a, 'w) FlowDefinition \<Rightarrow> graph \<Rightarrow> thrown option" where
  "check_flow_deps b name flow [] = None"
| "check_flow_deps b name flow ((stepName, deps) # entries) =
     (case check_step_deps b name flow stepName deps of
        Some e \<Rightarrow> Some e
      | None \<Rightarrow> check_flow_deps b name flow entries)"

definition validateFlow ::
  "('a, 'w) WorkflowBuilder \<Rightarrow> string \<Rightarrow> ('a, 'w) FlowDefinition \<Rightarrow> thrown option" where
  "validateFlow b name flow =
     (if hasCircularDependency (dependencies flow) None
      then Some (JsError (''Circular dependency detected in flow '' @ quoted name) None)
      else (case check_flow_steps b name flow of
              Some e \<Rightarrow> Some e
            | None \<Rightarrow> check_flow_deps b name flow (dependencies flow)))"

fun validate_entries ::
  "('a, 'w) WorkflowBuilder \<Rightarrow> (string \<times> ('a, 'w) FlowDefinition) list \<Rightarrow> thrown option" where
  "validate_entries b [] = None"
| "validate_entries b ((name, flow) # entries) =
     (case validateFlow b name flow of
        Some e \<Rightarrow> Some e
      | None \<Rightarrow> validate_entries b entries)"

definition validateFlows :: "('a, 'w) WorkflowBuilder \<Rightarrow> thrown option" where
  "validateFlows b = validate_entries b (b_flows b)"

text \<open>
  The instance is given the registries of the builder themselves, not copies: a
  \<open>WorkflowInstance\<close> value here is what these registries hold while the builder is left
  alone after the build.
\<close>

definition new_WorkflowInstance :: "('a, 'w) WorkflowBuilder \<Rightarrow> ('a, 'w) WorkflowInstance" where
  "new_WorkflowInstance b =
     \<lparr>wf_steps = b_steps b, wf_dependencies = b_dependencies b, flows = b_flows b,
      buildFlowName = b_buildFlowName b\<rparr>"

text \<open>
  \<open>build\<close> and \<open>buildAsync\<close> start from an empty container store. They return the
  workflow, or throw; with them comes the builder as they leave it and the machine state.
\<close>

definition fresh_machine :: "'w \<Rightarrow> ('a, 'w) machine" where
  "fresh_machine wd = \<lparr>containers = Map.empty, world = wd, calls = []\<rparr>"

definition build ::
  "('a, 'w) WorkflowBuilder \<Rightarrow> 'w
     \<Rightarrow> ('a, 'w) WorkflowInstance completion \<times> ('a, 'w) WorkflowBuilder \<times> ('a, 'w) machine" where
  "build b wd =
     (case checkForCircularDependencies b of
        Some e \<Rightarrow> (Thrown e, b, fresh_machine wd)
      | None \<Rightarrow>
          (case validateFlows b of
             Some e \<Rightarrow> (Thrown e, b, fresh_machine wd)
           | None \<Rightarrow>
               (let b' = createBuildFlow b; workflow = new_WorkflowInstance b' in
                case execute workflow (b_buildFlowName b') (fresh_machine wd) of
                  (Returned r, m) \<Rightarrow> (Returned workflow, b', m)
                | (Thrown e, m) \<Rightarrow> (Thrown e, b', m)
                | (NeverSettled, m) \<Rightarrow> (NeverSettled, b', m))))"

definition buildAsync ::
  "('a, 'w) WorkflowBuilder \<Rightarrow> 'w
     \<Rightarrow> ('a, 'w) WorkflowInstance completion \<times> ('a, 'w) WorkflowBuilder \<times> ('a, 'w) machine" where
  "buildAsync b wd =
     (case checkForCircularDependencies b of
        Some e \<Rightarrow> (Thrown e, b, fresh_machine wd)
      | None \<Rightarrow>
          (case validateFlows b of
             Some e \<Rightarrow> (Thrown e, b, fresh_machine wd)
           | None \<Rightarrow>
               (let b' = createBuildFlow b; workflow = new_WorkflowInstance b' in
                case executeAsync workflow (b_buildFlowName b') (fresh_machine wd) of
                  (Returned r, m) \<Rightarrow> (Returned workflow, b', m)
                | (Thrown e, m) \<Rightarrow> (Thrown e, b', m)
                | (NeverSettled, m) \<Rightarrow> (NeverSettled, b', m))))"

section \<open>Properties of the topological sort\<close>

definition dep_rel :: "graph \<Rightarrow> (string \<times> string) set" where
  "dep_rel g = {(n, d). d \<in> set (deps_of g n)}"

definition topo :: "graph \<Rightarrow> string list \<Rightarrow> bool" where
  "topo g r \<longleftrightarrow> (\<forall>i < length r. set (deps_of g (r ! i)) \<subseteq> set (take i r))"

definition sort_inv :: "graph \<Rightarrow> sort_state \<Rightarrow> bool" where
  "sort_inv g s \<longleftrightarrow>
     set (result s) = visited s \<and> distinct (result s) \<and> topo g (result s) \<and> temp s \<inter> visited s = {}"

lemma visit_temp:
  "visit g n s = Inr s' \<Longrightarrow> temp s' = temp s"
  "visit_deps g ds s = Inr s'' \<Longrightarrow> temp s'' = temp s"
proof (induct g n s and g ds s arbitrary: s' and s'' rule: visit_visit_deps.induct)
  case (1 g n s)
  from "1.prems" have nt: "n \<notin> temp s" by (auto simp: visit.simps[of g n s] split: if_splits)
  show ?case
  proof (cases "n \<in> visited s")
    case True
    with nt "1.prems" show ?thesis by (simp add: visit.simps[of g n s])
  next
    case nv: False
    from nt nv "1.prems" obtain s1 where
      s1: "visit_deps g (deps_of g n) (s\<lparr>temp := insert n (temp s)\<rparr>) = Inr s1"
      and s': "s' = s1\<lparr>temp := temp s1 - {n}, visited := insert n (visited s1), result := result s1 @ [n]\<rparr>"
      by (cases "visit_deps g (deps_of g n) (s\<lparr>temp := insert n (temp s)\<rparr>)")
         (simp_all add: visit.simps[of g n s])
    from "1.hyps"[OF nt nv s1] have "temp s1 = insert n (temp s)" by simp
    with s' nt show ?thesis by simp
  qed
next
  case (2 g s)
  then show ?case by simp
next
  case (3 g d ds s)
  from "3.prems" obtain s1 where
    s1: "visit g d s = Inr s1" and s2: "visit_deps g ds s1 = Inr s''"
    by (cases "visit g d s") simp_all
  from "3.hyps"(1)[OF s1] "3.hyps"(2)[OF s1 s2] show ?case by simp
qed

lemma topo_snoc:
  assumes "topo g r" "set (deps_of g n) \<subseteq> set r"
  shows "topo g (r @ [n])"
  unfolding topo_def
proof (intro allI impI)
  fix i assume i: "i < length (r @ [n])"
  show "set (deps_of g ((r @ [n]) ! i)) \<subseteq> set (take i (r @ [n]))"
  proof (cases "i < length r")
    case True
    with assms(1) show ?thesis by (simp add: topo_def nth_append)
  next
    case False
    with i have "i = length r" by simp
    with assms(2) show ?thesis by simp
  qed
qed

lemma visit_inv:
  "sort_inv g s \<Longrightarrow> visit g n s = Inr s' \<Longrightarrow>
     sort_inv g s' \<and> n \<in> visited s' \<and> visited s \<subseteq> visited s'"
  "sort_inv g s \<Longrightarrow> visit_deps g ds s = Inr s'' \<Longrightarrow>
     sort_inv g s'' \<and> set ds \<subseteq> visited s'' \<and> visited s \<subseteq> visited s''"
proof (induct g n s and g ds s arbitrary: s' and s'' rule: visit_visit_deps.induct)
  case (1 g n s)
  from "1.prems"(2) have nt: "n \<notin> temp s" by (auto simp: visit.simps[of g n s] split: if_splits)
  show ?case
  proof (cases "n \<in> visited s")
    case True
    with nt "1.prems" show ?thesis by (simp add: visit.simps[of g n s])
  next
    case nv: False
    let ?s0 = "s\<lparr>temp := insert n (temp s)\<rparr>"
    from nt nv "1.prems"(2) obtain s1 where
      s1: "visit_deps g (deps_of g n) ?s0 = Inr s1"
      and s': "s' = s1\<lparr>temp := temp s1 - {n}, visited := insert n (visited s1), result := result s1 @ [n]\<rparr>"
      by (cases "visit_deps g (deps_of g n) ?s0") (simp_all add: visit.simps[of g n s])
    from "1.prems"(1) nv have inv0: "sort_inv g ?s0" by (simp add: sort_inv_def)
    from "1.hyps"[OF nt nv inv0 s1] have
      inv1: "sort_inv g s1" and ds: "set (deps_of g n) \<subseteq> visited s1" and mono: "visited s \<subseteq> visited s1"
      by simp_all
    from visit_temp(2)[OF s1] have t1: "temp s1 = insert n (temp s)" by simp
    from inv1 have r1: "set (result s1) = visited s1" "distinct (result s1)" "topo g (result s1)"
      "temp s1 \<inter> visited s1 = {}" by (simp_all add: sort_inv_def)
    from r1(4) t1 have n1: "n \<notin> visited s1" by blast
    have f: "temp s' = temp s" "visited s' = insert n (visited s1)" "result s' = result s1 @ [n]"
      using nt by (simp_all add: s' t1)
    have "topo g (result s1 @ [n])" using topo_snoc[OF r1(3)] ds r1(1) by simp
    moreover have "temp s \<inter> insert n (visited s1) = {}" using t1 nt r1(4) by blast
    ultimately have "sort_inv g s'" unfolding sort_inv_def f using r1(1,2) n1 by simp
    moreover have "n \<in> visited s'" "visited s \<subseteq> visited s'" using f(2) mono by blast+
    ultimately show ?thesis by blast
  qed
next
  case (2 g s)
  then show ?case by simp
next
  case (3 g d ds s)
  from "3.prems"(2) obtain s1 where
    s1: "visit g d s = Inr s1" and s2: "visit_deps g ds s1 = Inr s''"
    by (cases "visit g d s") simp_all
  from "3.hyps"(1)[OF "3.prems"(1) s1] have a: "sort_inv g s1" "d \<in> visited s1" "visited s \<subseteq> visited s1"
    by simp_all
  from "3.hyps"(2)[OF s1 a(1) s2] have b: "sort_inv g s''" "set ds \<subseteq> visited s''" "visited s1 \<subseteq> visited s''"
    by simp_all
  from a b show ?case by auto
qed

lemma visit_no_throw:
  "acyclic (dep_rel g) \<Longrightarrow> \<forall>t \<in> temp s. (t, n) \<in> (dep_rel g)\<^sup>+ \<Longrightarrow> \<exists>s'. visit g n s = Inr s'"
  "acyclic (dep_rel g) \<Longrightarrow> \<forall>t \<in> temp s. \<forall>d \<in> set ds. (t, d) \<in> (dep_rel g)\<^sup>+ \<Longrightarrow>
     \<exists>s'. visit_deps g ds s = Inr s'"
proof (induct g n s and g ds s rule: visit_visit_deps.induct)
  case (1 g n s)
  from "1.prems" have nt: "n \<notin> temp s" by (auto simp: acyclic_def)
  show ?case
  proof (cases "n \<in> visited s")
    case True
    with nt show ?thesis by (simp add: visit.simps[of g n s])
  next
    case nv: False
    let ?s0 = "s\<lparr>temp := insert n (temp s)\<rparr>"
    have "\<forall>t \<in> temp ?s0. \<forall>d \<in> set (deps_of g n). (t, d) \<in> (dep_rel g)\<^sup>+"
    proof (intro ballI)
      fix t d assume t: "t \<in> temp ?s0" and d: "d \<in> set (deps_of g n)"
      from d have e: "(n, d) \<in> dep_rel g" by (simp add: dep_rel_def)
      show "(t, d) \<in> (dep_rel g)\<^sup>+"
      proof (cases "t = n")
        case True
        with e show ?thesis by auto
      next
        case False
        with t "1.prems"(2) have "(t, n) \<in> (dep_rel g)\<^sup>+" by simp
        then show ?thesis using e by (rule trancl.trancl_into_trancl)
      qed
    qed
    from "1.hyps"[OF nt nv "1.prems"(1) this] obtain s1 where
      "visit_deps g (deps_of g n) ?s0 = Inr s1" by blast
    with nt nv show ?thesis by (simp add: visit.simps[of g n s])
  qed
next
  case (2 g s)
  then show ?case by simp
next
  case (3 g d ds s)
  from "3.hyps"(1)[OF "3.prems"(1)] "3.prems"(2) obtain s1 where s1: "visit g d s = Inr s1" by auto
  from visit_temp(1)[OF s1] "3.prems"(2)
  have "\<forall>t \<in> temp s1. \<forall>d \<in> set ds. (t, d) \<in> (dep_rel g)\<^sup>+" by simp
  from "3.hyps"(2)[OF s1 "3.prems"(1) this] s1 show ?case by simp
qed

definition precedes :: "'a list \<Rightarrow> 'a \<Rightarrow> 'a \<Rightarrow> bool" where
  "precedes xs a b \<longleftrightarrow> (\<exists>i j. i < j \<and> j < length xs \<and> xs ! i = a \<and> xs ! j = b)"

lemma sort_nodes_ok:
  assumes "acyclic (dep_rel g)"
  shows "sort_inv g s \<Longrightarrow> temp s = {} \<Longrightarrow>
     \<exists>s'. sort_nodes g ns s = Inr s' \<and> sort_inv g s' \<and> temp s' = {} \<and> set ns \<subseteq> visited s' \<and> visited s \<subseteq> visited s'"
proof (induct ns arbitrary: s)
  case Nil
  then show ?case by simp
next
  case (Cons n ns)
  show ?case
  proof (cases "n \<in> visited s")
    case True
    from Cons.hyps[OF Cons.prems] obtain s' where
      "sort_nodes g ns s = Inr s'" "sort_inv g s'" "temp s' = {}" "set ns \<subseteq> visited s'" "visited s \<subseteq> visited s'"
      by blast
    with True show ?thesis by auto
  next
    case False
    from visit_no_throw(1)[OF assms, of s n] Cons.prems(2) obtain s1 where s1: "visit g n s = Inr s1"
      by auto
    from visit_inv(1)[OF Cons.prems(1) s1] have a: "sort_inv g s1" "n \<in> visited s1" "visited s \<subseteq> visited s1"
      by simp_all
    from visit_temp(1)[OF s1] Cons.prems(2) have t: "temp s1 = {}" by simp
    from Cons.hyps[OF a(1) t] obtain s' where
      b: "sort_nodes g ns s1 = Inr s'" "sort_inv g s'" "temp s' = {}" "set ns \<subseteq> visited s'" "visited s1 \<subseteq> visited s'"
      by blast
    from False s1 b(1) have "sort_nodes g (n # ns) s = Inr s'" by simp
    with a b show ?thesis by auto
  qed
qed

lemma topo_precedes:
  assumes "topo g r" "(n, d) \<in> (dep_rel g)\<^sup>+" "n \<in> set r"
  shows "precedes r d n"
  using assms(2,3)
proof (induct rule: trancl_induct)
  case (base d)
  from base(2) obtain j where j: "j < length r" "r ! j = n" by (auto simp: in_set_conv_nth)
  from base(1) j assms(1) have "d \<in> set (take j r)" by (auto simp: topo_def dep_rel_def)
  then obtain i where "i < j" "r ! i = d" using j(1) by (auto simp: in_set_conv_nth)
  with j show ?case unfolding precedes_def by blast
next
  case (step m d)
  from step(3)[OF step(4)] obtain i j where ij: "i < j" "j < length r" "r ! i = m" "r ! j = n"
    unfolding precedes_def by blast
  from ij have il: "i < length r" by simp
  from assms(1) il have "set (deps_of g (r ! i)) \<subseteq> set (take i r)" unfolding topo_def by blast
  with step(2) ij(3) have "d \<in> set (take i r)" by (auto simp: dep_rel_def)
  then obtain k where k: "k < i" "r ! k = d" using ij(1,2) by (auto simp: in_set_conv_nth)
  from k(1) ij(1) have "k < j" by simp
  with k(2) ij(2,4) show ?case unfolding precedes_def by blast
qed



lemma sort_inv_init: "sort_inv g \<lparr>result = [], visited = {}, temp = {}\<rparr>"
  by (simp add: sort_inv_def topo_def)


lemma sort_nodes_inv:
  "sort_inv g s \<Longrightarrow> sort_nodes g ns s = Inr s' \<Longrightarrow>
     sort_inv g s' \<and> set ns \<subseteq> visited s' \<and> visited s \<subseteq> visited s'"
proof (induct ns arbitrary: s)
  case Nil
  then show ?case by simp
next
  case (Cons n ns)
  show ?case
  proof (cases "n \<in> visited s")
    case True
    with Cons.prems(2) have "sort_nodes g ns s = Inr s'" by simp
    from Cons.hyps[OF Cons.prems(1) this] True show ?thesis by auto
  next
    case False
    with Cons.prems(2) obtain s1 where s1: "visit g n s = Inr s1" and l: "sort_nodes g ns s1 = Inr s'"
      by (cases "visit g n s") simp_all
    from visit_inv(1)[OF Cons.prems(1) s1] have a: "sort_inv g s1" "n \<in> visited s1" "visited s \<subseteq> visited s1"
      by simp_all
    from Cons.hyps[OF a(1) l] a show ?thesis by auto
  qed
qed

lemma topo_acyclic:
  assumes "topo g r" "distinct r" "\<forall>n. deps_of g n \<noteq> [] \<longrightarrow> n \<in> set r"
  shows "acyclic (dep_rel g)"
  unfolding acyclic_def
proof (intro allI notI)
  fix x assume x: "(x, x) \<in> (dep_rel g)\<^sup>+"
  then obtain y where "(x, y) \<in> dep_rel g" by (meson tranclD)
  then have "deps_of g x \<noteq> []" by (auto simp: dep_rel_def)
  with assms(3) have "x \<in> set r" by simp
  from topo_precedes[OF assms(1) x this] obtain i j where
    "i < j" "j < length r" "r ! i = x" "r ! j = x" unfolding precedes_def by blast
  then have "i < length r" "j < length r" "i \<noteq> j" "r ! i = r ! j" by simp_all
  with assms(2) show False using nth_eq_iff_index_eq by blast
qed

lemma deps_of_key: "deps_of g n \<noteq> [] \<Longrightarrow> n \<in> set (keys g)"
  using deps_of_nonempty_key[of g n] by (simp add: all_nodes_def keys_def)

lemma topologicalSort_Inr:
  assumes "topologicalSort g = Inr order"
  shows "topo g order" "distinct order" "set (keys g) \<subseteq> set order" "acyclic (dep_rel g)"
proof -
  let ?s0 = "\<lparr>result = [], visited = {}, temp = {}\<rparr>"
  from assms obtain s' where s': "sort_nodes g (keys g) ?s0 = Inr s'" and o: "order = result s'"
    by (cases "sort_nodes g (keys g) ?s0") (simp_all add: topologicalSort_def)
  from sort_nodes_inv[OF sort_inv_init s'] have inv: "sort_inv g s'" and ks: "set (keys g) \<subseteq> visited s'"
    by simp_all
  from inv o show t: "topo g order" and d: "distinct order" by (simp_all add: sort_inv_def)
  from inv o ks show k: "set (keys g) \<subseteq> set order" by (simp add: sort_inv_def)
  from k deps_of_key have "\<forall>n. deps_of g n \<noteq> [] \<longrightarrow> n \<in> set order" by blast
  from topo_acyclic[OF t d this] show "acyclic (dep_rel g)" .
qed

definition diamond :: graph where
  "diamond = [(''a'', []), (''b'', [''a'']), (''c'', [''a'']), (''d'', [''b'', ''c''])]"

lemma topologicalSort_diamond: "topologicalSort diamond = Inr [''a'', ''b'', ''c'', ''d'']"
  by (simp add: topologicalSort_def diamond_def keys_def deps_of_def visit.simps)

lemma plain_names_diamond: "plain_names diamond"
  by (simp add: plain_names_def graph_names_def diamond_def Object_prototype_def)



section \<open>Properties of the cycle check\<close>

text \<open>
  The nodes the search has finished with (seen and no longer on the recursion stack) can
  be listed so that each comes after its dependencies.
\<close>

definition cycle_inv :: "graph \<Rightarrow> cycle_state \<Rightarrow> bool" where
  "cycle_inv g c \<longleftrightarrow>
     recStack c \<subseteq> seen c \<and> (\<exists>r. set r = seen c - recStack c \<and> distinct r \<and> topo g r)"

lemma cycle_inv_finish:
  assumes "cycle_inv g c" "n \<in> recStack c" "set (deps_of g n) \<subseteq> seen c - recStack c"
  shows "cycle_inv g (c\<lparr>recStack := recStack c - {n}\<rparr>)"
proof -
  from assms(1) obtain r where r: "set r = seen c - recStack c" "distinct r" "topo g r"
    and sub: "recStack c \<subseteq> seen c" unfolding cycle_inv_def by blast
  from assms(2) r(1) have nr: "n \<notin> set r" by blast
  from assms(3) r(1) have "set (deps_of g n) \<subseteq> set r" by simp
  from topo_snoc[OF r(3) this] have t: "topo g (r @ [n])" .
  from assms(2) sub r(1) have "set (r @ [n]) = seen c - (recStack c - {n})" by auto
  moreover from r(2) nr have "distinct (r @ [n])" by simp
  ultimately show ?thesis unfolding cycle_inv_def using t sub
    by (intro conjI exI[of _ "r @ [n]"]) auto
qed

lemma hasCycle_False:
  "cycle_inv g c \<Longrightarrow> n \<notin> seen c \<Longrightarrow> hasCycle g n c = (False, c') \<Longrightarrow>
     cycle_inv g c' \<and> recStack c' = recStack c \<and> seen c \<subseteq> seen c' \<and> n \<in> seen c' - recStack c'"
  "cycle_inv g c \<Longrightarrow> hasCycle_deps g ds c = (False, c'') \<Longrightarrow>
     cycle_inv g c'' \<and> recStack c'' = recStack c \<and> seen c \<subseteq> seen c''
       \<and> set ds \<subseteq> seen c'' - recStack c''"
proof (induct g n c and g ds c arbitrary: c' and c'' rule: hasCycle_hasCycle_deps.induct)
  case (1 g n c)
  let ?c0 = "c\<lparr>seen := insert n (seen c), recStack := insert n (recStack c)\<rparr>"
  note ns = "1.prems"(2)
  obtain b c1 where r: "hasCycle_deps g (deps_of g n) ?c0 = (b, c1)"
    by (cases "hasCycle_deps g (deps_of g n) ?c0")
  from "1.prems"(3) ns r have b: "\<not> b" and c': "c' = c1\<lparr>recStack := recStack c1 - {n}\<rparr>"
    by (cases b; simp add: hasCycle.simps[of g n c])+
  from b r have r': "hasCycle_deps g (deps_of g n) ?c0 = (False, c1)" by simp
  from "1.prems"(1) ns have sub: "recStack c \<subseteq> seen c" and nrs: "n \<notin> recStack c"
    unfolding cycle_inv_def by blast+
  from "1.prems"(1) ns nrs have inv0: "cycle_inv g ?c0" unfolding cycle_inv_def by auto
  from "1.hyps"[OF ns inv0 r'] have
    i1: "cycle_inv g c1" and rs: "recStack c1 = insert n (recStack c)"
    and mono: "insert n (seen c) \<subseteq> seen c1" and ds: "set (deps_of g n) \<subseteq> seen c1 - recStack c1"
    by auto
  from rs have nin: "n \<in> recStack c1" by simp
  from cycle_inv_finish[OF i1 nin ds] c' have "cycle_inv g c'" by simp
  moreover from c' rs nrs have "recStack c' = recStack c" by auto
  moreover from c' mono have "seen c \<subseteq> seen c'" "n \<in> seen c'" by auto
  moreover from c' have "n \<notin> recStack c'" by simp
  ultimately show ?case by blast
next
  case (2 g c)
  then show ?case by simp
next
  case (3 g d ds c)
  show ?case
  proof (cases "d \<in> seen c")
    case True
    with "3.prems"(2) have nr: "d \<notin> recStack c" and l: "hasCycle_deps g ds c = (False, c'')"
      by (auto split: if_splits)
    from True have nn: "\<not> d \<notin> seen c" by simp
    from "3.hyps"(3)[OF nn nr "3.prems"(1) l] have
      a: "cycle_inv g c''" "recStack c'' = recStack c" "seen c \<subseteq> seen c''"
         "set ds \<subseteq> seen c'' - recStack c''" by auto
    from True nr a(2,3) have "d \<in> seen c'' - recStack c''" by auto
    with a show ?thesis by simp
  next
    case False
    obtain b c1 where r: "hasCycle g d c = (b, c1)" by (cases "hasCycle g d c")
    from "3.prems"(2) False r have b: "\<not> b" and nr: "d \<notin> recStack c1"
      and l: "hasCycle_deps g ds c1 = (False, c'')"
      by (cases b; simp split: if_splits)+
    from b r have r': "hasCycle g d c = (False, c1)" by simp
    from "3.hyps"(1)[OF False "3.prems"(1) False r'] have
      a: "cycle_inv g c1" "recStack c1 = recStack c" "seen c \<subseteq> seen c1" "d \<in> seen c1 - recStack c1"
      by auto
    from "3.hyps"(2)[OF False r'[symmetric] refl nr a(1) l] have
      e: "cycle_inv g c''" "recStack c'' = recStack c1" "seen c1 \<subseteq> seen c''"
         "set ds \<subseteq> seen c'' - recStack c''" by auto
    from a e have "d \<in> seen c'' - recStack c''" by auto
    with a e show ?thesis by auto
  qed
qed

lemma hasCycle_nodes_False:
  "cycle_inv g c \<Longrightarrow> recStack c = {} \<Longrightarrow> \<not> hasCycle_nodes g ns c \<Longrightarrow>
     \<exists>c'. cycle_inv g c' \<and> recStack c' = {} \<and> seen c \<union> set ns \<subseteq> seen c'"
proof (induct ns arbitrary: c)
  case Nil
  then show ?case by auto
next
  case (Cons n ns)
  obtain b c1 where r: "hasCycle g n c = (b, c1)" by (cases "hasCycle g n c")
  from Cons.prems(3) r have b: "\<not> b" and l: "\<not> hasCycle_nodes g ns c1" by (cases b; simp)+
  have "cycle_inv g c1 \<and> recStack c1 = {} \<and> insert n (seen c) \<subseteq> seen c1"
  proof (cases "n \<in> seen c")
    case True
    from Cons.prems(2) have "c\<lparr>recStack := recStack c - {n}\<rparr> = c" by simp
    with True r have "c1 = c" by (simp add: hasCycle.simps[of g n c])
    with True Cons.prems show ?thesis by simp
  next
    case False
    from b r have "hasCycle g n c = (False, c1)" by simp
    from hasCycle_False(1)[OF Cons.prems(1) False this] Cons.prems(2) show ?thesis by auto
  qed
  then have i: "cycle_inv g c1" and e: "recStack c1 = {}" and s: "insert n (seen c) \<subseteq> seen c1"
    by simp_all
  from Cons.hyps[OF i e l] obtain c' where
    "cycle_inv g c'" "recStack c' = {}" "seen c1 \<union> set ns \<subseteq> seen c'" by blast
  with s show ?case by (intro exI[of _ c']) auto
qed

lemma hasCircularDependency_complete:
  assumes "\<not> hasCircularDependency g None"
  shows "acyclic (dep_rel g)"
proof -
  let ?c0 = "\<lparr>seen = {}, recStack = {}\<rparr>"
  have i0: "cycle_inv g ?c0" unfolding cycle_inv_def by (simp add: topo_def)
  from assms have "\<not> hasCycle_nodes g (keys g) ?c0" by (simp add: hasCircularDependency_def)
  from hasCycle_nodes_False[OF i0 _ this] obtain c' where
    c': "cycle_inv g c'" "recStack c' = {}" "set (keys g) \<subseteq> seen c'" by auto
  then obtain r where r: "set r = seen c'" "distinct r" "topo g r" unfolding cycle_inv_def by auto
  from c'(3) r(1) deps_of_key have "\<forall>n. deps_of g n \<noteq> [] \<longrightarrow> n \<in> set r" by blast
  from topo_acyclic[OF r(3) r(2) this] show ?thesis .
qed

lemma two_cycle_detected:
  assumes "y \<in> set (deps_of g x)" "x \<in> set (deps_of g y)"
  shows "hasCircularDependency g None"
proof (rule ccontr)
  assume "\<not> hasCircularDependency g None"
  then have ac: "acyclic (dep_rel g)" by (rule hasCircularDependency_complete)
  from assms have "(x, y) \<in> dep_rel g" "(y, x) \<in> dep_rel g" by (simp_all add: dep_rel_def)
  then have "(x, x) \<in> (dep_rel g)\<^sup>+" by auto
  with ac show False by (simp add: acyclic_def)
qed

section \<open>Build-time validation\<close>

definition two_cycle_builder :: "(string, unit) WorkflowBuilder" where
  "two_cycle_builder =
     \<lparr>b_steps = [(''a'', \<lambda>inputData wd. (Returns (Plain (Val ''a-data'')), wd)),
                 (''b'', \<lambda>inputData wd. (Returns (Plain (Val ''b-data'')), wd))],
      b_dependencies = [(''a'', [''b'']), (''b'', [''a''])],
      b_flows = [],
      b_buildFlowName = ''__build__''\<rparr>"

text \<open>
  Claim C8. When the base graph of a builder has two steps that depend on each other, and
  no name in the graph is the name of a member of \<open>Object.prototype\<close>,
  \<open>build\<close> and \<open>buildAsync\<close> throw the error of the cycle check. Nothing is returned but the
  error: the builder is as it was, no implementation has been called and the container
  store is empty.
\<close>

theorem build_two_cycle_throws:
  assumes "y \<in> set (deps_of (b_dependencies b) x)" "x \<in> set (deps_of (b_dependencies b) y)"
    "plain_names (b_dependencies b)"
  shows "build b wd = (Thrown (JsError ''Circular dependency detected in workflow'' None), b,
                       \<lparr>containers = Map.empty, world = wd, calls = []\<rparr>)
       \<and> buildAsync b wd = (Thrown (JsError ''Circular dependency detected in workflow'' None), b,
                       \<lparr>containers = Map.empty, world = wd, calls = []\<rparr>)"
proof -
  from two_cycle_detected[OF assms(1,2)] have "hasCircularDependency (b_dependencies b) None" .
  then have "checkForCircularDependencies b
      = Some (JsError ''Circular dependency detected in workflow'' None)"
    by (simp add: checkForCircularDependencies_def)
  then show ?thesis by (simp add: build_def buildAsync_def fresh_machine_def)
qed

theorem build_two_cycle_throws_witness:
  "''b'' \<in> set (deps_of (b_dependencies two_cycle_builder) ''a'')
   \<and> ''a'' \<in> set (deps_of (b_dependencies two_cycle_builder) ''b'')
   \<and> plain_names (b_dependencies two_cycle_builder)
   \<and> build two_cycle_builder () = (Thrown (JsError ''Circular dependency detected in workflow'' None),
        two_cycle_builder, \<lparr>containers = Map.empty, world = (), calls = []\<rparr>)"
proof -
  have a: "''b'' \<in> set (deps_of (b_dependencies two_cycle_builder) ''a'')"
    and b: "''a'' \<in> set (deps_of (b_dependencies two_cycle_builder) ''b'')"
    by (simp_all add: two_cycle_builder_def deps_of_def)
  have p: "plain_names (b_dependencies two_cycle_builder)"
    by (simp add: two_cycle_builder_def plain_names_def graph_names_def Object_prototype_def)
  from build_two_cycle_throws[OF a b p, of "()"] a b p show ?thesis by simp
qed

section \<open>Properties of a run\<close>

lemma start_run_simps [simp]:
  "containers (start_run m) = containers m"
  "world (start_run m) = world m"
  "calls (start_run m) = calls m"
  "ctx (start_run m) = Map.empty"
  "results (start_run m) = Map.empty"
  by (simp_all add: start_run_def machine.defs run_state.defs)

lemma end_run_simps [simp]:
  "containers (end_run s) = containers s"
  "world (end_run s) = world s"
  "calls (end_run s) = calls s"
  by (simp_all add: end_run_def machine.defs)

text \<open>
  Claim C9. A call of \<open>execute\<close> or \<open>executeAsync\<close> that returns gives \<open>success = true\<close>;
  a failure is a thrown error (a rejected promise), never a returned value.
\<close>

theorem returned_success:
  "(execute w f m = (Returned r, m') \<longrightarrow> success r)
   \<and> (executeAsync w f m = (Returned r, m') \<longrightarrow> success r)"
proof (intro conjI impI)
  assume "execute w f m = (Returned r, m')"
  then show "success r"
    by (auto simp: execute_def split: option.splits sum.splits prod.splits)
next
  assume "executeAsync w f m = (Returned r, m')"
  then show "success r"
    by (auto simp: executeAsync_def split: option.splits sum.splits prod.splits completion.splits)
qed

subsection \<open>Blocking runs\<close>

text \<open>
  In blocking mode a call is bad when it throws or returns a deferred value; the error
  the loop throws for a bad call is \<open>sync_error\<close>.
\<close>

definition bad_call :: "'a call \<Rightarrow> bool" where
  "bad_call c = (case call_outcome c of Throws e \<Rightarrow> True | Returns r \<Rightarrow> isPromise r)"

definition sync_error :: "'a call \<Rightarrow> thrown" where
  "sync_error c =
     wrap_error (call_name c)
       (case call_outcome c of
          Throws e \<Rightarrow> e
        | Returns r \<Rightarrow>
            if is_StepCall c then step_promise_error (call_name c)
            else action_promise_error (call_name c))"

definition returned_value :: "'a call \<Rightarrow> 'a val" where
  "returned_value c = (case call_outcome c of Returns r \<Rightarrow> plain r | Throws e \<Rightarrow> Undefined)"

lemma execute_step_calls:
  assumes "execute_step w f flow x s = (r, s')"
  shows "calls s' = calls s
         \<or> (\<exists>c. calls s' = calls s @ [c] \<and> call_name c = x \<and> has_key x (steps flow)
                \<and> (is_StepCall c \<longleftrightarrow> f = buildFlowName w))"
  using assms
  by (auto simp: execute_step_def Let_def has_key_def
           split: option.splits prod.splits outcome.splits if_splits)

lemma execute_step_Some:
  assumes "execute_step w f flow x s = (Some e, s')"
  shows "containers s' = containers s \<and> ctx s' = ctx s \<and> results s' = results s
         \<and> ((calls s' = calls s \<and> e = wrap_error x not_a_function)
            \<or> (\<exists>c. calls s' = calls s @ [c] \<and> call_name c = x \<and> bad_call c \<and> e = sync_error c
                   \<and> (is_StepCall c \<longleftrightarrow> f = buildFlowName w)
                   \<and> has_key x (steps flow)
                   \<and> call_map c = (if f = buildFlowName w
                                 then inputData_of (deps_of (wf_dependencies w) x) (containers s)
                                 else ctx s)))"
proof (cases "map_of (steps flow) x")
  case None
  with assms show ?thesis by (simp add: execute_step_def)
next
  case (Some stepDef)
  show ?thesis
  proof (cases "f = buildFlowName w")
    case True
    let ?inp = "inputData_of (deps_of (wf_dependencies w) x) (containers s)"
    show ?thesis
    proof (cases "map_of (wf_steps w) x")
      case None
      with Some True assms show ?thesis by (simp add: execute_step_def)
    next
      case (Some impl)
      obtain out wd where o: "impl ?inp (world s) = (out, wd)" by (cases "impl ?inp (world s)")
      let ?c = "StepCall x ?inp out"
      from assms \<open>map_of (steps flow) x = Some stepDef\<close> True Some o
      have "bad_call ?c \<and> e = sync_error ?c \<and> s' = s\<lparr>world := wd, calls := calls s @ [?c]\<rparr>"
        by (cases out)
           (auto simp: execute_step_def Let_def bad_call_def sync_error_def split: if_splits)
      with True \<open>map_of (steps flow) x = Some stepDef\<close> show ?thesis
        by (intro conjI disjI2 exI[of _ ?c]) (simp_all add: has_key_def)
    qed
  next
    case False
    let ?k = "read_prop (containers s) x"
    obtain out wd where o: "action stepDef ?k (ctx s) (world s) = (out, wd)"
      by (cases "action stepDef ?k (ctx s) (world s)")
    let ?c = "ActionCall x ?k (ctx s) out"
    from assms Some False o
    have "bad_call ?c \<and> e = sync_error ?c \<and> s' = s\<lparr>world := wd, calls := calls s @ [?c]\<rparr>"
      by (cases out)
         (auto simp: execute_step_def Let_def bad_call_def sync_error_def split: if_splits)
    with False Some show ?thesis by (intro conjI disjI2 exI[of _ ?c]) (simp_all add: has_key_def)
  qed
qed

lemma execute_step_None:
  assumes "execute_step w f flow x s = (None, s')"
  shows "(s' = s \<and> \<not> has_key x (steps flow))
         \<or> (\<exists>c. calls s' = calls s @ [c] \<and> call_name c = x \<and> \<not> bad_call c \<and> has_key x (steps flow)
                \<and> ctx s' = (ctx s)(x \<mapsto> returned_value c)
                \<and> results s' = (results s)(x \<mapsto> returned_value c)
                \<and> containers s' = (if f = buildFlowName w then (containers s)(x \<mapsto> returned_value c)
                                    else containers s)
                \<and> call_map c = (if f = buildFlowName w
                                 then inputData_of (deps_of (wf_dependencies w) x) (containers s)
                                 else ctx s))"
  using assms
  by (auto simp: execute_step_def Let_def bad_call_def returned_value_def has_key_def
           split: option.splits prod.splits outcome.splits if_splits)

lemma execute_step_frame:
  assumes "execute_step w f flow x s = (r, s')"
  shows "f \<noteq> buildFlowName w \<Longrightarrow> containers s' = containers s"
    and "k \<noteq> x \<Longrightarrow> containers s' k = containers s k"
  using assms
  by (auto simp: execute_step_def Let_def
           split: option.splits prod.splits outcome.splits if_splits)

text \<open>
  A step can be called when the flow has an action for it and, in the build flow, the
  registry has its implementation. \<open>record_calls\<close> stores what each call of a list returned.
\<close>

definition callable ::
  "('a, 'w) WorkflowInstance \<Rightarrow> string \<Rightarrow> ('a, 'w) FlowDefinition \<Rightarrow> string \<Rightarrow> bool" where
  "callable w f flow n \<longleftrightarrow>
     has_key n (steps flow) \<and> (f = buildFlowName w \<longrightarrow> has_key n (wf_steps w))"

definition record_calls :: "(string \<rightharpoonup> 'a val) \<Rightarrow> 'a call list \<Rightarrow> (string \<rightharpoonup> 'a val)" where
  "record_calls mp cs = foldl (\<lambda>acc c. acc(call_name c \<mapsto> returned_value c)) mp cs"

lemma record_calls_simps [simp]:
  "record_calls mp [] = mp"
  "record_calls mp (c # cs) = record_calls (mp(call_name c \<mapsto> returned_value c)) cs"
  "record_calls mp (cs @ [c]) = (record_calls mp cs)(call_name c \<mapsto> returned_value c)"
  by (simp_all add: record_calls_def)

lemma record_calls_append: "record_calls mp (cs @ ds) = record_calls (record_calls mp cs) ds"
  by (simp add: record_calls_def)

lemma execute_steps_append:
  "execute_steps w f flow (xs @ ys) s =
     (case execute_steps w f flow xs s of
        (Some e, s') \<Rightarrow> (Some e, s')
      | (None, s') \<Rightarrow> execute_steps w f flow ys s')"
proof (induct xs arbitrary: s)
  case Nil
  show ?case by simp
next
  case (Cons x xs)
  obtain r s1 where st: "execute_step w f flow x s = (r, s1)" by (cases "execute_step w f flow x s")
  show ?case
  proof (cases r)
    case None
    with st Cons[of s1] show ?thesis by simp
  next
    case (Some e)
    with st show ?thesis by simp
  qed
qed

lemma execute_steps_Some:
  assumes "execute_steps w f flow xs s = (Some e, s')"
  shows "\<exists>pre x post s1. xs = pre @ x # post \<and> execute_steps w f flow pre s = (None, s1)
           \<and> execute_step w f flow x s1 = (Some e, s')"
  using assms
proof (induct xs arbitrary: s)
  case Nil
  then show ?case by simp
next
  case (Cons x xs)
  obtain r s1 where st: "execute_step w f flow x s = (r, s1)" by (cases "execute_step w f flow x s")
  show ?case
  proof (cases r)
    case None
    with st Cons.prems have "execute_steps w f flow xs s1 = (Some e, s')" by simp
    from Cons.hyps[OF this] obtain pre y post s2 where
      a: "xs = pre @ y # post" "execute_steps w f flow pre s1 = (None, s2)"
         "execute_step w f flow y s2 = (Some e, s')" by blast
    from None st a(2) have "execute_steps w f flow (x # pre) s = (None, s2)" by simp
    with a(1,3) show ?thesis by (intro exI[of _ "x # pre"] exI[of _ y] exI[of _ post] exI[of _ s2]) simp
  next
    case (Some e')
    with st Cons.prems have "e' = e" "s1 = s'" by simp_all
    with Some st show ?thesis by (intro exI[of _ "[]"] exI[of _ x] exI[of _ xs] exI[of _ s]) simp
  qed
qed

lemma execute_steps_None:
  assumes "execute_steps w f flow xs s = (None, s')"
  shows "\<exists>new. calls s' = calls s @ new
           \<and> map call_name new = filter (\<lambda>n. has_key n (steps flow)) xs
           \<and> (\<forall>c \<in> set new. \<not> bad_call c \<and> (is_StepCall c \<longleftrightarrow> f = buildFlowName w))
           \<and> ctx s' = record_calls (ctx s) new
           \<and> results s' = record_calls (results s) new
           \<and> containers s' = (if f = buildFlowName w then record_calls (containers s) new
                               else containers s)
           \<and> (\<forall>i < length new. call_map (new ! i) =
                  (if f = buildFlowName w
                   then inputData_of (deps_of (wf_dependencies w) (call_name (new ! i)))
                          (record_calls (containers s) (take i new))
                   else record_calls (ctx s) (take i new)))"
  using assms
proof (induct xs arbitrary: s)
  case Nil
  then show ?case by simp
next
  case (Cons x xs)
  obtain r s1 where st: "execute_step w f flow x s = (r, s1)" by (cases "execute_step w f flow x s")
  with Cons.prems have r: "r = None" and rest: "execute_steps w f flow xs s1 = (None, s')"
    by (cases r; simp)+
  from Cons.hyps[OF rest] obtain new where new:
    "calls s' = calls s1 @ new"
    "map call_name new = filter (\<lambda>n. has_key n (steps flow)) xs"
    "\<forall>c \<in> set new. \<not> bad_call c \<and> (is_StepCall c \<longleftrightarrow> f = buildFlowName w)"
    "ctx s' = record_calls (ctx s1) new"
    "results s' = record_calls (results s1) new"
    "containers s' = (if f = buildFlowName w then record_calls (containers s1) new else containers s1)"
    "\<forall>i < length new. call_map (new ! i) =
        (if f = buildFlowName w
         then inputData_of (deps_of (wf_dependencies w) (call_name (new ! i)))
                (record_calls (containers s1) (take i new))
         else record_calls (ctx s1) (take i new))"
    by blast
  from st r have st': "execute_step w f flow x s = (None, s1)" by simp
  from execute_step_None[OF st'] show ?case
  proof
    assume "s1 = s \<and> \<not> has_key x (steps flow)"
    with new show ?thesis by (intro exI[of _ new]) simp
  next
    assume "\<exists>c. calls s1 = calls s @ [c] \<and> call_name c = x \<and> \<not> bad_call c \<and> has_key x (steps flow)
                \<and> ctx s1 = (ctx s)(x \<mapsto> returned_value c)
                \<and> results s1 = (results s)(x \<mapsto> returned_value c)
                \<and> containers s1 = (if f = buildFlowName w then (containers s)(x \<mapsto> returned_value c)
                                    else containers s)
                \<and> call_map c = (if f = buildFlowName w
                                 then inputData_of (deps_of (wf_dependencies w) x) (containers s)
                                 else ctx s)"
    then obtain c where c:
      "calls s1 = calls s @ [c]" "call_name c = x" "\<not> bad_call c" "has_key x (steps flow)"
      "ctx s1 = (ctx s)(x \<mapsto> returned_value c)"
      "results s1 = (results s)(x \<mapsto> returned_value c)"
      "containers s1 = (if f = buildFlowName w then (containers s)(x \<mapsto> returned_value c)
                                    else containers s)"
      "call_map c = (if f = buildFlowName w
                                 then inputData_of (deps_of (wf_dependencies w) x) (containers s)
                                 else ctx s)"
      by blast
    from execute_step_calls[OF st'] c(1) have sc: "is_StepCall c \<longleftrightarrow> f = buildFlowName w" by auto
    have maps: "\<forall>i < length (c # new). call_map ((c # new) ! i) =
        (if f = buildFlowName w
         then inputData_of (deps_of (wf_dependencies w) (call_name ((c # new) ! i)))
                (record_calls (containers s) (take i (c # new)))
         else record_calls (ctx s) (take i (c # new)))"
    proof (intro allI impI)
      fix i assume i: "i < length (c # new)"
      show "call_map ((c # new) ! i) =
        (if f = buildFlowName w
         then inputData_of (deps_of (wf_dependencies w) (call_name ((c # new) ! i)))
                (record_calls (containers s) (take i (c # new)))
         else record_calls (ctx s) (take i (c # new)))"
      proof (cases i)
        case 0
        with c(2,8) show ?thesis by simp
      next
        case (Suc j)
        with i have "j < length new" by simp
        with new(7) have "call_map (new ! j) =
          (if f = buildFlowName w
           then inputData_of (deps_of (wf_dependencies w) (call_name (new ! j)))
                  (record_calls (containers s1) (take j new))
           else record_calls (ctx s1) (take j new))" by blast
        with Suc c(2,5,7) show ?thesis by simp
      qed
    qed
    from new(1) c(1) have "calls s' = calls s @ (c # new)" by simp
    moreover from new(2) c(2,4) have "map call_name (c # new) = filter (\<lambda>n. has_key n (steps flow)) (x # xs)"
      by simp
    moreover from new(3) c(3) sc have "\<forall>c' \<in> set (c # new). \<not> bad_call c' \<and> (is_StepCall c' \<longleftrightarrow> f = buildFlowName w)"
      by simp
    moreover from new(4) c(2,5) have "ctx s' = record_calls (ctx s) (c # new)" by simp
    moreover from new(5) c(2,6) have "results s' = record_calls (results s) (c # new)" by simp
    moreover from new(6) c(2,7) have "containers s' = (if f = buildFlowName w
        then record_calls (containers s) (c # new) else containers s)" by simp
    ultimately show ?thesis using maps by (intro exI[of _ "c # new"]) blast
  qed
qed

lemma record_calls_other:
  "k \<notin> call_name ` set cs \<Longrightarrow> record_calls mp cs k = mp k"
  by (induct cs arbitrary: mp) auto

lemma execute_not_NeverSettled: "execute w f m \<noteq> (NeverSettled, m')"
  by (auto simp: execute_def split: option.splits sum.splits prod.splits)

lemma execute_Returned:
  assumes "map_of (flows w) f = Some flow" "calculateFlowExecutionOrder flow = Inr order"
    "execute w f m = (Returned r, m')"
  shows "\<exists>new. calls m' = calls m @ new
           \<and> map call_name new = filter (\<lambda>n. has_key n (steps flow)) order
           \<and> (\<forall>c \<in> set new. \<not> bad_call c \<and> (is_StepCall c \<longleftrightarrow> f = buildFlowName w))
           \<and> r = \<lparr>flow_results = record_calls Map.empty new, success = True\<rparr>
           \<and> containers m' = (if f = buildFlowName w then record_calls (containers m) new
                               else containers m)
           \<and> (\<forall>i < length new. call_map (new ! i) =
                  (if f = buildFlowName w
                   then inputData_of (deps_of (wf_dependencies w) (call_name (new ! i)))
                          (record_calls (containers m) (take i new))
                   else record_calls Map.empty (take i new)))"
proof -
  obtain x s where st: "execute_steps w f flow order (start_run m) = (x, s)"
    by (cases "execute_steps w f flow order (start_run m)")
  from assms st have x: "x = None" and r: "r = \<lparr>flow_results = results s, success = True\<rparr>"
    and m': "m' = end_run s"
    by (cases x; simp add: execute_def)+
  from st x have "execute_steps w f flow order (start_run m) = (None, s)" by simp
  from execute_steps_None[OF this] obtain new where n:
    "calls s = calls m @ new"
    "map call_name new = filter (\<lambda>n. has_key n (steps flow)) order"
    "\<forall>c \<in> set new. \<not> bad_call c \<and> (is_StepCall c \<longleftrightarrow> f = buildFlowName w)"
    "results s = record_calls Map.empty new"
    "containers s = (if f = buildFlowName w then record_calls (containers m) new else containers m)"
    "\<forall>i < length new. call_map (new ! i) =
        (if f = buildFlowName w
         then inputData_of (deps_of (wf_dependencies w) (call_name (new ! i)))
                (record_calls (containers m) (take i new))
         else record_calls Map.empty (take i new))"
    by auto
  from n(1) m' have "calls m' = calls m @ new" by simp
  moreover from n(4) r have "r = \<lparr>flow_results = record_calls Map.empty new, success = True\<rparr>" by simp
  moreover from n(5) m' have "containers m' = (if f = buildFlowName w
      then record_calls (containers m) new else containers m)" by simp
  ultimately show ?thesis using n(2,3,6) by (intro exI[of _ new]) blast
qed

lemma execute_Thrown:
  assumes "map_of (flows w) f = Some flow" "calculateFlowExecutionOrder flow = Inr order"
    "execute w f m = (Thrown e, m')"
  shows "\<exists>pre x post good. order = pre @ x # post
           \<and> map call_name good = filter (\<lambda>n. has_key n (steps flow)) pre
           \<and> (\<forall>c \<in> set good. \<not> bad_call c)
           \<and> containers m' = (if f = buildFlowName w then record_calls (containers m) good
                               else containers m)
           \<and> (\<forall>i < length good. call_map (good ! i) =
                  (if f = buildFlowName w
                   then inputData_of (deps_of (wf_dependencies w) (call_name (good ! i)))
                          (record_calls (containers m) (take i good))
                   else record_calls Map.empty (take i good)))
           \<and> ((calls m' = calls m @ good \<and> e = wrap_error x not_a_function)
              \<or> (\<exists>c. calls m' = calls m @ good @ [c] \<and> call_name c = x \<and> bad_call c
                     \<and> e = sync_error c \<and> (is_StepCall c \<longleftrightarrow> f = buildFlowName w)
                     \<and> has_key x (steps flow)
                     \<and> call_map c = (if f = buildFlowName w
                           then inputData_of (deps_of (wf_dependencies w) x)
                                  (record_calls (containers m) good)
                           else record_calls Map.empty good)))"
proof -
  obtain r s where st: "execute_steps w f flow order (start_run m) = (r, s)"
    by (cases "execute_steps w f flow order (start_run m)")
  from assms st have r: "r = Some e" and m': "m' = end_run s"
    by (cases r; simp add: execute_def)+
  from st r have "execute_steps w f flow order (start_run m) = (Some e, s)" by simp
  from execute_steps_Some[OF this] obtain pre x post s1 where
    d: "order = pre @ x # post" "execute_steps w f flow pre (start_run m) = (None, s1)"
       "execute_step w f flow x s1 = (Some e, s)" by blast
  from execute_steps_None[OF d(2)] obtain good where g:
    "calls s1 = calls m @ good"
    "map call_name good = filter (\<lambda>n. has_key n (steps flow)) pre"
    "\<forall>c \<in> set good. \<not> bad_call c"
    "containers s1 = (if f = buildFlowName w then record_calls (containers m) good else containers m)"
    "ctx s1 = record_calls Map.empty good"
    "\<forall>i < length good. call_map (good ! i) =
        (if f = buildFlowName w
         then inputData_of (deps_of (wf_dependencies w) (call_name (good ! i)))
                (record_calls (containers m) (take i good))
         else record_calls Map.empty (take i good))"
    by auto
  from execute_step_Some[OF d(3)] have
    c: "containers s = containers s1"
    and alt: "(calls s = calls s1 \<and> e = wrap_error x not_a_function)
            \<or> (\<exists>c. calls s = calls s1 @ [c] \<and> call_name c = x \<and> bad_call c \<and> e = sync_error c
                   \<and> (is_StepCall c \<longleftrightarrow> f = buildFlowName w)
                   \<and> has_key x (steps flow)
                   \<and> call_map c = (if f = buildFlowName w
                                 then inputData_of (deps_of (wf_dependencies w) x) (containers s1)
                                 else ctx s1))"
    by simp_all
  from alt g(1,4,5) m' have "(calls m' = calls m @ good \<and> e = wrap_error x not_a_function)
              \<or> (\<exists>c. calls m' = calls m @ good @ [c] \<and> call_name c = x \<and> bad_call c
                     \<and> e = sync_error c \<and> (is_StepCall c \<longleftrightarrow> f = buildFlowName w)
                     \<and> has_key x (steps flow)
                     \<and> call_map c = (if f = buildFlowName w
                           then inputData_of (deps_of (wf_dependencies w) x)
                                  (record_calls (containers m) good)
                           else record_calls Map.empty good))" by auto
  with d(1) g(2,3,4,6) c m' show ?thesis
    by (intro exI[of _ pre] exI[of _ x] exI[of _ post] exI[of _ good]) simp
qed

text \<open>
  What a blocking run does after a bad call: the run throws the error of that call, the
  call is the last one of the run, the calls before it are those of the steps before it
  in the execution order, and the container of its step is as it was before the run.
\<close>

lemma execute_bad_call:
  assumes fl: "map_of (flows w) f = Some flow" and ord: "calculateFlowExecutionOrder flow = Inr order"
    and ex: "execute w f m = (r, m')" and new: "calls m' = calls m @ new"
    and c: "c \<in> set new" and bad: "bad_call c"
  shows "r = Thrown (sync_error c)
       \<and> (\<exists>pre post good. order = pre @ call_name c # post \<and> new = good @ [c]
             \<and> map call_name good = filter (\<lambda>n. has_key n (steps flow)) pre
             \<and> (\<forall>c' \<in> set good. \<not> bad_call c'))
       \<and> containers m' (call_name c) = containers m (call_name c)
       \<and> (is_StepCall c \<longleftrightarrow> f = buildFlowName w)"
proof (cases r)
  case (Returned res)
  from execute_Returned[OF fl ord ex[unfolded Returned]] new c bad show ?thesis by auto
next
  case NeverSettled
  with ex execute_not_NeverSettled show ?thesis by blast
next
  case (Thrown e)
  from execute_Thrown[OF fl ord ex[unfolded Thrown]] obtain pre x post good where
    d: "order = pre @ x # post"
       "map call_name good = filter (\<lambda>n. has_key n (steps flow)) pre"
       "\<forall>c \<in> set good. \<not> bad_call c"
       "containers m' = (if f = buildFlowName w then record_calls (containers m) good
                               else containers m)"
       "(calls m' = calls m @ good \<and> e = wrap_error x not_a_function)
              \<or> (\<exists>c. calls m' = calls m @ good @ [c] \<and> call_name c = x \<and> bad_call c
                     \<and> e = sync_error c \<and> (is_StepCall c \<longleftrightarrow> f = buildFlowName w))" by blast
  from d(5) new c bad d(3) have l: "new = good @ [c]" "call_name c = x" "e = sync_error c"
    "is_StepCall c \<longleftrightarrow> f = buildFlowName w" by auto
  from ord have "distinct order" using topologicalSort_Inr(2) by (simp add: calculateFlowExecutionOrder_def)
  with d(1) have "x \<notin> set pre" by simp
  with d(2) have "x \<notin> call_name ` set good"
    by (metis (no_types, lifting) filter_is_subset image_set subsetD)
  from record_calls_other[OF this] d(4) l(2) have "containers m' (call_name c) = containers m (call_name c)"
    by simp
  with Thrown l d(1,2,3) show ?thesis by blast
qed

section \<open>Properties of the level scheduler\<close>

lemma getStepLevel_memo:
  "stepLevels x = Some l \<Longrightarrow> getStepLevel (Suc n) g x stepLevels = Some (l, stepLevels)"
  by simp

lemma maxDepLevel_memo:
  "set ds \<subseteq> dom stepLevels \<Longrightarrow>
     maxDepLevel (Suc n) g ds m stepLevels
       = Some (Max (insert m ((\<lambda>d. int (the (stepLevels d))) ` set ds)), stepLevels)"
proof (induct ds arbitrary: m)
  case Nil
  then show ?case by simp
next
  case (Cons d ds)
  from Cons.prems obtain l where l: "stepLevels d = Some l" by auto
  from Cons.prems have sub: "set ds \<subseteq> dom stepLevels" by simp
  have fin: "finite ((\<lambda>d. int (the (stepLevels d))) ` set ds)" by simp
  have "Max (insert (max m (int l)) ((\<lambda>d. int (the (stepLevels d))) ` set ds))
      = Max (insert m (insert (int l) ((\<lambda>d. int (the (stepLevels d))) ` set ds)))"
  proof (cases "set ds = {}")
    case True
    then show ?thesis by (simp add: max.commute)
  next
    case False
    then have ne: "(\<lambda>d. int (the (stepLevels d))) ` set ds \<noteq> {}" by simp
    show ?thesis using fin ne by (simp add: max.assoc)
  qed
  with l Cons.hyps[OF sub, of "max m (int l)"] show ?case by simp
qed

lemma Max_int_image:
  assumes "finite A" "A \<noteq> {}"
  shows "Max (insert (- 1) (int ` A)) = int (Max A)"
proof -
  have m: "Max (int ` A) = int (Max A)"
    using assms by (intro mono_Max_commute[symmetric]) (auto simp: mono_def)
  from assms have "Max (insert (- 1) (int ` A)) = max (- 1) (Max (int ` A))" by simp
  with m show ?thesis by simp
qed

definition spec_level :: "graph \<Rightarrow> (string \<Rightarrow> nat) \<Rightarrow> string \<Rightarrow> nat" where
  "spec_level g lv x = (if deps_of g x = [] then 0 else Suc (Max (lv ` set (deps_of g x))))"

lemma getStepLevel_new:
  assumes "stepLevels x = None" "set (deps_of g x) \<subseteq> dom stepLevels"
  shows "getStepLevel (Suc (Suc n)) g x stepLevels
           = Some (spec_level g (\<lambda>d. the (stepLevels d)) x,
                   stepLevels(x \<mapsto> spec_level g (\<lambda>d. the (stepLevels d)) x))"
proof (cases "deps_of g x = []")
  case True
  with assms(1) show ?thesis by (simp add: spec_level_def)
next
  case False
  let ?A = "(\<lambda>d. the (stepLevels d)) ` set (deps_of g x)"
  from False have ne: "?A \<noteq> {}" by simp
  have "(\<lambda>d. int (the (stepLevels d))) ` set (deps_of g x) = int ` ?A" by (simp add: image_image)
  with Max_int_image[OF _ ne] have
    "Max (insert (- 1) ((\<lambda>d. int (the (stepLevels d))) ` set (deps_of g x))) = int (Max ?A)" by simp
  with maxDepLevel_memo[OF assms(2), of n g "- 1"] have
    "maxDepLevel (Suc n) g (deps_of g x) (- 1) stepLevels = Some (int (Max ?A), stepLevels)" by simp
  moreover have "nat (int (Max ?A) + 1) = Suc (Max ?A)" by simp
  ultimately show ?thesis using assms(1) False by (simp add: spec_level_def)
qed

text \<open>
  The state of \<open>groupStepsByLevel\<close> after the steps \<open>p\<close>: the memo has exactly those steps,
  each with the level the rule for levels gives it, and level \<open>k\<close> lists the steps of level
  \<open>k\<close> in the order they were added.
\<close>

definition levels_inv ::
  "graph \<Rightarrow> string list \<Rightarrow> string list list \<Rightarrow> (string \<rightharpoonup> nat) \<Rightarrow> bool" where
  "levels_inv g p levels stepLevels \<longleftrightarrow>
     dom stepLevels = set p
     \<and> levels = map (\<lambda>k. filter (\<lambda>x. stepLevels x = Some k) p) [0..<length levels]
     \<and> (\<forall>x \<in> set p. \<exists>k < length levels. stepLevels x = Some k)
     \<and> (\<forall>x \<in> set p. set (deps_of g x) \<subseteq> set p
            \<and> stepLevels x = Some (spec_level g (\<lambda>d. the (stepLevels d)) x))"

lemma push_step_length: "length (push_step levels l x) = max (length levels) (Suc l)"
  by (auto simp: push_step_def Let_def)

lemma push_step_nth:
  assumes "k < max (length levels) (Suc l)"
  shows "push_step levels l x ! k =
     (if k = l then (if l < length levels then levels ! l else []) @ [x]
      else if k < length levels then levels ! k else [])"
  using assms by (auto simp: push_step_def Let_def nth_append)

lemma spec_level_cong:
  "(\<And>d. d \<in> set (deps_of g x) \<Longrightarrow> lv d = lv' d) \<Longrightarrow> spec_level g lv x = spec_level g lv' x"
proof -
  assume "\<And>d. d \<in> set (deps_of g x) \<Longrightarrow> lv d = lv' d"
  then have "lv ` set (deps_of g x) = lv' ` set (deps_of g x)" by (intro image_cong) simp_all
  then show ?thesis by (simp add: spec_level_def)
qed

lemma levels_inv_step:
  assumes inv: "levels_inv g p levels stepLevels" and x: "x \<notin> set p"
    and ds: "set (deps_of g x) \<subseteq> set p"
  defines "l \<equiv> spec_level g (\<lambda>d. the (stepLevels d)) x"
  shows "levels_inv g (p @ [x]) (push_step levels l x) (stepLevels(x \<mapsto> l))"
proof -
  let ?sl' = "stepLevels(x \<mapsto> l)"
  let ?n' = "max (length levels) (Suc l)"
  from inv have dom: "dom stepLevels = set p"
    and lv: "levels = map (\<lambda>k. filter (\<lambda>x. stepLevels x = Some k) p) [0..<length levels]"
    and bound: "\<forall>y \<in> set p. \<exists>k < length levels. stepLevels y = Some k"
    and spec: "\<forall>y \<in> set p. set (deps_of g y) \<subseteq> set p
            \<and> stepLevels y = Some (spec_level g (\<lambda>d. the (stepLevels d)) y)"
    unfolding levels_inv_def by blast+
  have old: "\<And>y. y \<in> set p \<Longrightarrow> ?sl' y = stepLevels y" using x by auto
  have nthl: "\<And>k. k < length levels \<Longrightarrow> levels ! k = filter (\<lambda>y. stepLevels y = Some k) p"
  proof -
    fix k assume "k < length levels"
    then have "map (\<lambda>k. filter (\<lambda>x. stepLevels x = Some k) p) [0..<length levels] ! k
        = filter (\<lambda>y. stepLevels y = Some k) p" by simp
    with lv show "levels ! k = filter (\<lambda>y. stepLevels y = Some k) p" by simp
  qed
  have beyond: "\<And>k. \<not> k < length levels \<Longrightarrow> filter (\<lambda>y. stepLevels y = Some k) p = []"
    using bound by (auto simp: filter_empty_conv)
  have filt: "\<And>k. filter (\<lambda>y. ?sl' y = Some k) p = filter (\<lambda>y. stepLevels y = Some k) p"
    using old by (intro filter_cong) auto
  have d1: "dom ?sl' = set (p @ [x])" using dom by auto
  have d2: "push_step levels l x
      = map (\<lambda>k. filter (\<lambda>y. ?sl' y = Some k) (p @ [x])) [0..<length (push_step levels l x)]"
  proof (rule nth_equalityI)
    show "length (push_step levels l x)
        = length (map (\<lambda>k. filter (\<lambda>y. ?sl' y = Some k) (p @ [x])) [0..<length (push_step levels l x)])"
      by simp
  next
    fix k assume "k < length (push_step levels l x)"
    then have k: "k < ?n'" by (simp add: push_step_length)
    have "push_step levels l x ! k = filter (\<lambda>y. ?sl' y = Some k) (p @ [x])"
    proof (cases "k = l")
      case True
      with push_step_nth[OF k, of x] nthl[of l] beyond[of l] filt[of l] show ?thesis by auto
    next
      case False
      with push_step_nth[OF k, of x] nthl[of k] beyond[of k] filt[of k] show ?thesis by auto
    qed
    with k show "push_step levels l x ! k
        = map (\<lambda>k. filter (\<lambda>y. ?sl' y = Some k) (p @ [x])) [0..<length (push_step levels l x)] ! k"
      by (simp add: push_step_length)
  qed
  have d3: "\<forall>y \<in> set (p @ [x]). \<exists>k < length (push_step levels l x). ?sl' y = Some k"
  proof
    fix y assume "y \<in> set (p @ [x])"
    then consider "y = x" | "y \<in> set p" "y \<noteq> x" using x by auto
    then show "\<exists>k < length (push_step levels l x). ?sl' y = Some k"
    proof cases
      case 1
      then show ?thesis by (simp add: push_step_length)
    next
      case 2
      with bound obtain k where "k < length levels" "stepLevels y = Some k" by blast
      with 2 show ?thesis by (intro exI[of _ k]) (simp add: push_step_length)
    qed
  qed
  have d4: "\<forall>y \<in> set (p @ [x]). set (deps_of g y) \<subseteq> set (p @ [x])
            \<and> ?sl' y = Some (spec_level g (\<lambda>d. the (?sl' d)) y)"
  proof
    fix y assume y: "y \<in> set (p @ [x])"
    have sub: "set (deps_of g y) \<subseteq> set p" using y ds spec by auto
    have "spec_level g (\<lambda>d. the (?sl' d)) y = spec_level g (\<lambda>d. the (stepLevels d)) y"
      using sub x by (intro spec_level_cong) auto
    moreover have "?sl' y = Some (spec_level g (\<lambda>d. the (stepLevels d)) y)"
      using y spec x by (cases "y = x") (auto simp: l_def)
    ultimately show "set (deps_of g y) \<subseteq> set (p @ [x])
            \<and> ?sl' y = Some (spec_level g (\<lambda>d. the (?sl' d)) y)" using sub by auto
  qed
  from d1 d2 d3 d4 show ?thesis unfolding levels_inv_def by blast
qed

lemma group_steps_inv:
  assumes "2 \<le> depth"
  shows "levels_inv g p levels stepLevels \<Longrightarrow> distinct (p @ xs) \<Longrightarrow> topo g (p @ xs) \<Longrightarrow>
     \<exists>levels' stepLevels'. group_steps depth g xs (levels, stepLevels) = Some (levels', stepLevels')
        \<and> levels_inv g (p @ xs) levels' stepLevels'"
proof (induct xs arbitrary: p levels stepLevels)
  case Nil
  then show ?case by simp
next
  case (Cons x xs)
  from assms obtain n where depth: "depth = Suc (Suc n)" by (metis Suc_le_D numeral_2_eq_2 Suc_le_mono)
  from Cons.prems(2) have xp: "x \<notin> set p" by simp
  from Cons.prems(1) have dom: "dom stepLevels = set p" by (simp add: levels_inv_def)
  have "length p < length (p @ x # xs)" by simp
  with Cons.prems(3) have "set (deps_of g ((p @ x # xs) ! length p)) \<subseteq> set (take (length p) (p @ x # xs))"
    unfolding topo_def by blast
  then have ds: "set (deps_of g x) \<subseteq> set p" by simp
  let ?l = "spec_level g (\<lambda>d. the (stepLevels d)) x"
  from xp dom have nx: "stepLevels x = None" by auto
  from ds dom have dd: "set (deps_of g x) \<subseteq> dom stepLevels" by simp
  from getStepLevel_new[of stepLevels x g n, OF nx dd] depth have
    gl: "getStepLevel depth g x stepLevels = Some (?l, stepLevels(x \<mapsto> ?l))" by simp
  from levels_inv_step[OF Cons.prems(1) xp ds] have
    inv': "levels_inv g (p @ [x]) (push_step levels ?l x) (stepLevels(x \<mapsto> ?l))" .
  from Cons.prems(2,3) have "distinct ((p @ [x]) @ xs)" "topo g ((p @ [x]) @ xs)" by simp_all
  from Cons.hyps[OF inv' this] obtain levels' stepLevels' where
    r: "group_steps depth g xs (push_step levels ?l x, stepLevels(x \<mapsto> ?l)) = Some (levels', stepLevels')"
    and i: "levels_inv g ((p @ [x]) @ xs) levels' stepLevels'" by blast
  from gl r have "group_steps depth g (x # xs) (levels, stepLevels) = Some (levels', stepLevels')"
    by simp
  with i show ?case by simp
qed

lemma levels_inv_nth:
  assumes "levels_inv g p levels stepLevels" "k < length levels"
  shows "levels ! k = filter (\<lambda>x. stepLevels x = Some k) p"
proof -
  from assms(1) have "levels = map (\<lambda>k. filter (\<lambda>x. stepLevels x = Some k) p) [0..<length levels]"
    by (simp add: levels_inv_def)
  then have "levels ! k = map (\<lambda>k. filter (\<lambda>x. stepLevels x = Some k) p) [0..<length levels] ! k"
    by simp
  with assms(2) show ?thesis by simp
qed

lemma levels_inv_level_of:
  assumes inv: "levels_inv g p levels stepLevels" and x: "x \<in> set p"
  shows "stepLevels x = Some (level_of levels x)" "level_of levels x < length levels"
proof -
  from inv x obtain k where k: "k < length levels" "stepLevels x = Some k"
    unfolding levels_inv_def by blast
  have "takeWhile (\<lambda>l. x \<notin> set l) levels = take k levels"
  proof (rule takeWhile_eq_take_P_nth)
    fix i assume "i < k" "i < length levels"
    with levels_inv_nth[OF inv, of i] k(2) show "x \<notin> set (levels ! i)" by auto
  next
    assume "k < length levels"
    with levels_inv_nth[OF inv, of k] k(2) x show "\<not> x \<notin> set (levels ! k)" by auto
  qed
  with k(1) have "level_of levels x = k" by (simp add: level_of_def)
  with k show "stepLevels x = Some (level_of levels x)" "level_of levels x < length levels"
    by simp_all
qed

lemma distinct_concat_filter:
  "distinct p \<Longrightarrow> distinct (concat (map (\<lambda>k. filter (\<lambda>x. f x = Some k) p) [0..<n]))"
  by (induct n) auto

lemma levels_inv_concat:
  assumes inv: "levels_inv g p levels stepLevels" and d: "distinct p"
  shows "distinct (concat levels)" "set (concat levels) = set p"
proof -
  from inv have lv: "levels = map (\<lambda>k. filter (\<lambda>x. stepLevels x = Some k) p) [0..<length levels]"
    by (simp add: levels_inv_def)
  from distinct_concat_filter[OF d, of stepLevels "length levels"] lv
  show "distinct (concat levels)" by simp
  show "set (concat levels) = set p"
  proof
    show "set (concat levels) \<subseteq> set p"
    proof
      fix x assume "x \<in> set (concat levels)"
      then obtain l where "l \<in> set levels" "x \<in> set l" by auto
      then obtain k where "k < length levels" "x \<in> set (levels ! k)" by (auto simp: in_set_conv_nth)
      with levels_inv_nth[OF inv, of k] show "x \<in> set p" by auto
    qed
  next
    show "set p \<subseteq> set (concat levels)"
    proof
      fix x assume x: "x \<in> set p"
      from levels_inv_level_of[OF inv x] levels_inv_nth[OF inv, of "level_of levels x"] x
      have a: "x \<in> set (levels ! level_of levels x)" and b: "level_of levels x < length levels" by auto
      from b have "levels ! level_of levels x \<in> set levels" by simp
      with a show "x \<in> set (concat levels)" by auto
    qed
  qed
qed

lemma levels_inv_spec:
  assumes inv: "levels_inv g p levels stepLevels" and x: "x \<in> set p"
  shows "level_of levels x = spec_level g (level_of levels) x"
proof -
  from inv x have sub: "set (deps_of g x) \<subseteq> set p"
    and sp: "stepLevels x = Some (spec_level g (\<lambda>d. the (stepLevels d)) x)"
    unfolding levels_inv_def by blast+
  have "spec_level g (\<lambda>d. the (stepLevels d)) x = spec_level g (level_of levels) x"
  proof (rule spec_level_cong)
    fix d assume "d \<in> set (deps_of g x)"
    with sub have "d \<in> set p" by blast
    from levels_inv_level_of(1)[OF inv this] show "the (stepLevels d) = level_of levels d" by simp
  qed
  with sp levels_inv_level_of(1)[OF inv x] show ?thesis by simp
qed

lemma levels_inv_edge:
  assumes inv: "levels_inv g p levels stepLevels" and x: "x \<in> set p"
    and e: "(x, d) \<in> (dep_rel g)\<^sup>+"
  shows "d \<in> set p \<and> level_of levels d < level_of levels x"
  using e
proof (induct rule: trancl_induct)
  case (base d)
  then have d: "d \<in> set (deps_of g x)" by (simp add: dep_rel_def)
  from inv x have sub: "set (deps_of g x) \<subseteq> set p" unfolding levels_inv_def by blast
  from d have "deps_of g x \<noteq> []" by auto
  with levels_inv_spec[OF inv x] have
    "level_of levels x = Suc (Max (level_of levels ` set (deps_of g x)))" by (simp add: spec_level_def)
  moreover from d have "level_of levels d \<le> Max (level_of levels ` set (deps_of g x))"
    by (intro Max_ge) auto
  ultimately have "level_of levels d < level_of levels x" by linarith
  with d sub show ?case by blast
next
  case (step y d)
  then have y: "y \<in> set p" and lt: "level_of levels y < level_of levels x" by simp_all
  from step(2) have d: "d \<in> set (deps_of g y)" by (simp add: dep_rel_def)
  from inv y have sub: "set (deps_of g y) \<subseteq> set p" unfolding levels_inv_def by blast
  from d have "deps_of g y \<noteq> []" by auto
  with levels_inv_spec[OF inv y] have
    "level_of levels y = Suc (Max (level_of levels ` set (deps_of g y)))" by (simp add: spec_level_def)
  moreover from d have "level_of levels d \<le> Max (level_of levels ` set (deps_of g y))"
    by (intro Max_ge) auto
  ultimately have "level_of levels d < level_of levels x" using lt by linarith
  with d sub show ?case by blast
qed

text \<open>What \<open>groupStepsByLevel\<close> returns for an execution order that \<open>topologicalSort\<close> gave.\<close>

lemma groupStepsByLevel_sorted:
  assumes ord: "calculateFlowExecutionOrder flow = Inr order" and depth: "2 \<le> depth"
  shows "\<exists>levels stepLevels. groupStepsByLevel depth flow order = Some levels
           \<and> levels_inv (dependencies flow) order levels stepLevels"
proof -
  from ord have t: "topo (dependencies flow) order" and d: "distinct order"
    using topologicalSort_Inr by (simp_all add: calculateFlowExecutionOrder_def)
  have i0: "levels_inv (dependencies flow) [] [] Map.empty" by (simp add: levels_inv_def)
  from group_steps_inv[OF depth i0, of order] t d obtain levels stepLevels where
    "group_steps depth (dependencies flow) order ([], Map.empty) = Some (levels, stepLevels)"
    "levels_inv (dependencies flow) order levels stepLevels" by auto
  then show ?thesis by (auto simp: groupStepsByLevel_def)
qed

definition diamond_flow :: "('a, 'w) FlowDefinition" where
  "diamond_flow = \<lparr>steps = [], dependencies = diamond\<rparr>"

lemma groupStepsByLevel_diamond:
  "groupStepsByLevel 5 diamond_flow [''a'', ''b'', ''c'', ''d''] = Some [[''a''], [''b'', ''c''], [''d'']]"
  by (simp add: groupStepsByLevel_def diamond_flow_def diamond_def deps_of_def push_step_def
        eval_nat_numeral)

text \<open>
  Claim C5. For the execution order of a flow (its dependency graph is then acyclic) none
  of whose step names is the name of a member of \<open>Object.prototype\<close>,
  \<open>groupStepsByLevel\<close> returns levels in which every step of the order occurs exactly once;
  level 0 holds exactly the steps with no flow-local dependencies and level \<open>k\<close> exactly the
  steps whose dependencies have maximum level \<open>k - 1\<close>; no two steps of one level depend on
  each other, directly or transitively; and the diamond graph gives \<open>[a]\<close>, \<open>[b, c]\<close>, \<open>[d]\<close>.
\<close>

theorem groupStepsByLevel_correct:
  assumes "calculateFlowExecutionOrder flow = Inr order" "2 \<le> depth"
    "plain_names (dependencies flow)"
  shows "(\<exists>levels. groupStepsByLevel depth flow order = Some levels
           \<and> distinct (concat levels) \<and> set (concat levels) = set order
           \<and> (\<forall>k < length levels. \<forall>x. x \<in> set (levels ! k) \<longleftrightarrow>
                 x \<in> set order
                 \<and> (if deps_of (dependencies flow) x = [] then k = 0
                    else k = Suc (Max (level_of levels ` set (deps_of (dependencies flow) x)))))
           \<and> (\<forall>k < length levels. \<forall>a \<in> set (levels ! k). \<forall>b \<in> set (levels ! k).
                 (a, b) \<notin> (dep_rel (dependencies flow))\<^sup>+))
       \<and> calculateFlowExecutionOrder (diamond_flow :: ('a, 'w) FlowDefinition)
            = Inr [''a'', ''b'', ''c'', ''d'']
       \<and> groupStepsByLevel 5 (diamond_flow :: ('a, 'w) FlowDefinition) [''a'', ''b'', ''c'', ''d'']
            = Some [[''a''], [''b'', ''c''], [''d'']]"
proof -
  let ?g = "dependencies flow"
  from groupStepsByLevel_sorted[OF assms(1,2)] obtain levels stepLevels where
    gl: "groupStepsByLevel depth flow order = Some levels"
    and inv: "levels_inv ?g order levels stepLevels" by blast
  from assms(1) have d: "distinct order"
    using topologicalSort_Inr(2) by (simp add: calculateFlowExecutionOrder_def)
  note cc = levels_inv_concat[OF inv d]
  have mem: "\<forall>k < length levels. \<forall>x. x \<in> set (levels ! k) \<longleftrightarrow>
                 x \<in> set order
                 \<and> (if deps_of ?g x = [] then k = 0
                    else k = Suc (Max (level_of levels ` set (deps_of ?g x))))"
  proof (intro allI impI)
    fix k x assume k: "k < length levels"
    have "x \<in> set (levels ! k) \<longleftrightarrow> x \<in> set order \<and> stepLevels x = Some k"
      using levels_inv_nth[OF inv k] by auto
    also have "\<dots> \<longleftrightarrow> x \<in> set order \<and> level_of levels x = k"
      using levels_inv_level_of(1)[OF inv] by auto
    also have "\<dots> \<longleftrightarrow> x \<in> set order \<and> spec_level ?g (level_of levels) x = k"
      using levels_inv_spec[OF inv] by auto
    finally show "x \<in> set (levels ! k) \<longleftrightarrow>
                 x \<in> set order
                 \<and> (if deps_of ?g x = [] then k = 0
                    else k = Suc (Max (level_of levels ` set (deps_of ?g x))))"
      by (auto simp: spec_level_def)
  qed
  have indep: "\<forall>k < length levels. \<forall>a \<in> set (levels ! k). \<forall>b \<in> set (levels ! k).
                 (a, b) \<notin> (dep_rel ?g)\<^sup>+"
  proof (intro allI impI ballI notI)
    fix k a b assume k: "k < length levels" and a: "a \<in> set (levels ! k)" and b: "b \<in> set (levels ! k)"
      and e: "(a, b) \<in> (dep_rel ?g)\<^sup>+"
    from a b levels_inv_nth[OF inv k] have ao: "a \<in> set order" and bo: "b \<in> set order"
      and la: "stepLevels a = Some k" and lb: "stepLevels b = Some k" by auto
    from levels_inv_level_of(1)[OF inv ao] la levels_inv_level_of(1)[OF inv bo] lb
    have "level_of levels a = level_of levels b" by simp
    with levels_inv_edge[OF inv ao e] show False by simp
  qed
  have dm: "calculateFlowExecutionOrder (diamond_flow :: ('a, 'w) FlowDefinition)
      = Inr [''a'', ''b'', ''c'', ''d'']"
    by (simp add: calculateFlowExecutionOrder_def diamond_flow_def topologicalSort_diamond)
  from gl cc mem indep dm groupStepsByLevel_diamond show ?thesis by blast
qed

theorem groupStepsByLevel_correct_witness:
  "calculateFlowExecutionOrder (diamond_flow :: (nat, unit) FlowDefinition) = Inr [''a'', ''b'', ''c'', ''d'']
   \<and> (2::nat) \<le> 5
   \<and> plain_names (dependencies (diamond_flow :: (nat, unit) FlowDefinition))
   \<and> groupStepsByLevel 5 (diamond_flow :: (nat, unit) FlowDefinition) [''a'', ''b'', ''c'', ''d'']
        = Some [[''a''], [''b'', ''c''], [''d'']]
   \<and> (''b'', ''c'') \<notin> (dep_rel (dependencies (diamond_flow :: (nat, unit) FlowDefinition)))\<^sup>+"
proof -
  let ?f = "diamond_flow :: (nat, unit) FlowDefinition"
  have o: "calculateFlowExecutionOrder ?f = Inr [''a'', ''b'', ''c'', ''d'']"
    by (simp add: calculateFlowExecutionOrder_def diamond_flow_def topologicalSort_diamond)
  have two: "(2::nat) \<le> 5" by simp
  have pn: "plain_names (dependencies ?f)" by (simp add: diamond_flow_def plain_names_diamond)
  from groupStepsByLevel_correct[OF o two pn] obtain levels where
    l: "groupStepsByLevel 5 ?f [''a'', ''b'', ''c'', ''d''] = Some levels"
    and ind: "\<forall>k < length levels. \<forall>a \<in> set (levels ! k). \<forall>b \<in> set (levels ! k).
                 (a, b) \<notin> (dep_rel (dependencies ?f))\<^sup>+" by blast
  from l have lv: "levels = [[''a''], [''b'', ''c''], [''d'']]" by (simp add: groupStepsByLevel_diamond)
  have "(1::nat) < length levels" "''b'' \<in> set (levels ! 1)" "''c'' \<in> set (levels ! 1)"
    by (simp_all add: lv)
  with ind have "(''b'', ''c'') \<notin> (dep_rel (dependencies ?f))\<^sup>+" by blast
  with o two pn l lv show ?thesis by simp
qed

subsection \<open>Concurrent runs\<close>

text \<open>
  In concurrent mode a call fails when it throws or returns a deferred value that is
  rejected; its value is what it returned, or what its deferred value was fulfilled with.
\<close>

definition failing_call :: "'a call \<Rightarrow> bool" where
  "failing_call c =
     (case call_outcome c of
        Throws e \<Rightarrow> True
      | Returns (Plain v) \<Rightarrow> False
      | Returns (Deferred (Fulfills v)) \<Rightarrow> False
      | Returns (Deferred (Rejects t e)) \<Rightarrow> True
      | Returns (Deferred NeverSettles) \<Rightarrow> False)"

definition cause_of :: "'a call \<Rightarrow> thrown" where
  "cause_of c =
     (case call_outcome c of
        Throws e \<Rightarrow> e
      | Returns (Plain v) \<Rightarrow> NonError []
      | Returns (Deferred (Fulfills v)) \<Rightarrow> NonError []
      | Returns (Deferred (Rejects t e)) \<Rightarrow> e
      | Returns (Deferred NeverSettles) \<Rightarrow> NonError [])"

definition async_value :: "'a call \<Rightarrow> 'a val option" where
  "async_value c =
     (case call_outcome c of
        Throws e \<Rightarrow> None
      | Returns (Plain v) \<Rightarrow> Some v
      | Returns (Deferred (Fulfills v)) \<Rightarrow> Some v
      | Returns (Deferred (Rejects t e)) \<Rightarrow> None
      | Returns (Deferred NeverSettles) \<Rightarrow> None)"

definition slot_of :: "'a call \<Rightarrow> 'a slot" where
  "slot_of c =
     (case call_outcome c of
        Throws e \<Rightarrow> Failed (wrap_error (call_name c) e)
      | Returns r \<Rightarrow>
          if isPromise r then Awaiting (call_name c) (deferred r)
          else Item (call_name c) (plain r))"

fun is_result :: "'a slot \<Rightarrow> bool" where
  "is_result (Item x v) = True"
| "is_result (Awaiting x p) = True"
| "is_result sl = False"

text \<open>\<open>record_where P\<close> stores the value of every call of a list that satisfies \<open>P\<close>.\<close>

definition record_where ::
  "('a call \<Rightarrow> bool) \<Rightarrow> (string \<rightharpoonup> 'a val) \<Rightarrow> 'a call list \<Rightarrow> (string \<rightharpoonup> 'a val)" where
  "record_where P mp cs =
     foldl (\<lambda>acc c. if P c then acc(call_name c := async_value c) else acc) mp cs"

lemma record_where_simps [simp]:
  "record_where P mp [] = mp"
  "record_where P mp (c # cs) =
     record_where P (if P c then mp(call_name c := async_value c) else mp) cs"
  by (simp_all add: record_where_def)

lemma record_where_append:
  "record_where P mp (cs @ ds) = record_where P (record_where P mp cs) ds"
  by (simp add: record_where_def)

lemma record_where_other:
  "k \<notin> call_name ` set cs \<Longrightarrow> record_where P mp cs k = mp k"
  by (induct cs arbitrary: mp) auto

lemma record_where_hit:
  "distinct (map call_name cs) \<Longrightarrow> c \<in> set cs \<Longrightarrow>
     record_where P mp cs (call_name c) = (if P c then async_value c else mp (call_name c))"
proof (induct cs arbitrary: mp)
  case Nil
  then show ?case by simp
next
  case (Cons d cs)
  show ?case
  proof (cases "c = d")
    case True
    from Cons.prems(1) have "call_name d \<notin> call_name ` set cs" by auto
    from record_where_other[OF this] True show ?thesis by simp
  next
    case False
    with Cons.prems have c: "c \<in> set cs" and d: "distinct (map call_name cs)"
      and nd: "call_name d \<notin> call_name ` set cs" by auto
    from c nd have ne: "call_name c \<noteq> call_name d" by (metis imageI)
    from Cons.hyps[OF d c] ne show ?thesis by simp
  qed
qed

definition has_value :: "'a call \<Rightarrow> bool" where
  "has_value c \<longleftrightarrow> async_value c \<noteq> None"

definition record_async :: "(string \<rightharpoonup> 'a val) \<Rightarrow> 'a call list \<Rightarrow> (string \<rightharpoonup> 'a val)" where
  "record_async mp cs = record_where has_value mp cs"

lemma record_async_append: "record_async mp (cs @ ds) = record_async (record_async mp cs) ds"
  by (simp add: record_async_def record_where_append)

lemma record_async_Nil [simp]: "record_async mp [] = mp"
  by (simp add: record_async_def)

lemma dispatch_step_cases:
  assumes "dispatch_step w f flow x s = (sl, s')"
  shows "ctx s' = ctx s \<and> results s' = results s
       \<and> ((sl = NoItem \<and> s' = s \<and> \<not> has_key x (steps flow))
          \<or> (sl = Failed (wrap_error x not_a_function) \<and> s' = s \<and> has_key x (steps flow)
               \<and> \<not> callable w f flow x)
          \<or> (\<exists>c. calls s' = calls s @ [c] \<and> call_name c = x \<and> callable w f flow x
                 \<and> (is_StepCall c \<longleftrightarrow> f = buildFlowName w)
                 \<and> (f \<noteq> buildFlowName w \<longrightarrow> call_map c = ctx s)
                 \<and> sl = slot_of c
                 \<and> containers s' =
                     (if f = buildFlowName w
                      then (case sl of Item n v \<Rightarrow> (containers s)(n \<mapsto> v) | _ \<Rightarrow> containers s)
                      else containers s)))"
  using assms
  by (auto simp: dispatch_step_def Let_def callable_def has_key_def slot_of_def
           split: option.splits prod.splits outcome.splits if_splits)

definition plain_call :: "'a call \<Rightarrow> bool" where
  "plain_call c = (case slot_of c of Item n v \<Rightarrow> True | _ \<Rightarrow> False)"

definition fulfilled_call :: "'a call \<Rightarrow> bool" where
  "fulfilled_call c = (case slot_of c of Awaiting n (Fulfills v) \<Rightarrow> True | _ \<Rightarrow> False)"

lemma item_update:
  "(case slot_of c of Item n v \<Rightarrow> mp(n \<mapsto> v) | _ \<Rightarrow> mp)
     = (if plain_call c then mp(call_name c := async_value c) else mp)"
  by (cases "call_outcome c")
     (auto simp: plain_call_def slot_of_def async_value_def split: returned.splits promise.splits)

definition level_facts ::
  "('a, 'w) WorkflowInstance \<Rightarrow> string \<Rightarrow> ('a, 'w) FlowDefinition \<Rightarrow> string list
     \<Rightarrow> ('a, 'w) run_state \<Rightarrow> 'a slot list \<Rightarrow> ('a, 'w) run_state \<Rightarrow> 'a call list \<Rightarrow> bool" where
  "level_facts w f flow L s sls s' new \<longleftrightarrow>
     calls s' = calls s @ new
     \<and> map call_name new = filter (callable w f flow) L
     \<and> ctx s' = ctx s \<and> results s' = results s
     \<and> (\<forall>c \<in> set new. (is_StepCall c \<longleftrightarrow> f = buildFlowName w)
                       \<and> (f \<noteq> buildFlowName w \<longrightarrow> call_map c = ctx s))
     \<and> filter is_result sls = filter is_result (map slot_of new)
     \<and> (\<forall>sl \<in> set sls. sl = NoItem
           \<or> (\<exists>x \<in> set L. sl = Failed (wrap_error x not_a_function) \<and> has_key x (steps flow)
                 \<and> \<not> callable w f flow x)
           \<or> (\<exists>c \<in> set new. sl = slot_of c))
     \<and> (\<forall>c \<in> set new. slot_of c \<in> set sls)
     \<and> (\<forall>x \<in> set L. has_key x (steps flow) \<and> \<not> callable w f flow x
           \<longrightarrow> Failed (wrap_error x not_a_function) \<in> set sls)
     \<and> containers s' = (if f = buildFlowName w then record_where plain_call (containers s) new
                         else containers s)"

lemma dispatch_level_run:
  "dispatch_level w f flow L s = (sls, s') \<Longrightarrow> \<exists>new. level_facts w f flow L s sls s' new"
proof (induct L arbitrary: s sls s')
  case Nil
  then show ?case by (intro exI[of _ "[]"]) (simp add: level_facts_def)
next
  case (Cons x L)
  obtain sl s1 where st: "dispatch_step w f flow x s = (sl, s1)"
    by (cases "dispatch_step w f flow x s")
  obtain sls1 s2 where rest: "dispatch_level w f flow L s1 = (sls1, s2)"
    by (cases "dispatch_level w f flow L s1")
  from Cons.prems st rest have eq: "sls = sl # sls1" "s' = s2" by simp_all
  from Cons.hyps[OF rest] obtain new where lf: "level_facts w f flow L s1 sls1 s2 new" by blast
  note f = lf[unfolded level_facts_def]
  from dispatch_step_cases[OF st] have cr: "ctx s1 = ctx s" "results s1 = results s" by simp_all
  from dispatch_step_cases[OF st] consider
      (skip) "sl = NoItem" "s1 = s" "\<not> has_key x (steps flow)"
    | (noimpl) "sl = Failed (wrap_error x not_a_function)" "s1 = s" "has_key x (steps flow)"
        "\<not> callable w f flow x"
    | (called) c where "calls s1 = calls s @ [c]" "call_name c = x" "callable w f flow x"
        "is_StepCall c \<longleftrightarrow> f = buildFlowName w" "f \<noteq> buildFlowName w \<longrightarrow> call_map c = ctx s"
        "sl = slot_of c"
        "containers s1 = (if f = buildFlowName w
                      then (case sl of Item n v \<Rightarrow> (containers s)(n \<mapsto> v) | _ \<Rightarrow> containers s)
                      else containers s)"
    by blast
  then show ?case
  proof cases
    case skip
    then have nc: "\<not> callable w f flow x" by (simp add: callable_def)
    have "level_facts w f flow (x # L) s sls s' new"
      unfolding level_facts_def eq using f skip nc by auto
    then show ?thesis ..
  next
    case noimpl
    have "level_facts w f flow (x # L) s sls s' new"
      unfolding level_facts_def eq using f noimpl by auto
    then show ?thesis ..
  next
    case called
    have "level_facts w f flow (x # L) s sls s' (c # new)"
      unfolding level_facts_def eq using f called cr by (auto simp: item_update)
    then show ?thesis ..
  qed
qed

lemma first_failed_None: "first_failed sls = None \<longleftrightarrow> (\<forall>e. Failed e \<notin> set sls)"
  by (induct sls rule: first_failed.induct) auto

lemma first_failed_Some: "first_failed sls = Some e \<Longrightarrow> Failed e \<in> set sls"
  by (induct sls rule: first_failed.induct) auto

lemma first_rejected_None:
  "first_rejected sls = None \<longleftrightarrow> (\<forall>x t e. Awaiting x (Rejects t e) \<notin> set sls)"
  by (induct sls rule: first_rejected.induct) (auto split: option.splits prod.splits)

lemma first_rejected_Some:
  "first_rejected sls = Some (t, e) \<Longrightarrow>
     \<exists>x c. Awaiting x (Rejects t c) \<in> set sls \<and> e = wrap_error x c"
proof (induct sls arbitrary: t e rule: first_rejected.induct)
  case 1
  then show ?case by simp
next
  case (2 stepName t0 e0 sls)
  show ?case
  proof (cases "first_rejected sls")
    case None
    with "2.prems" show ?thesis by auto
  next
    case (Some p)
    obtain t' e' where p: "p = (t', e')" by (cases p)
    from "2.hyps"[of t' e'] Some p have ih: "\<exists>x c. Awaiting x (Rejects t' c) \<in> set sls \<and> e' = wrap_error x c"
      by simp
    from "2.prems" Some p show ?thesis
      using ih by (auto split: if_splits)
  qed
qed auto

lemma never_settles_iff: "never_settles sls \<longleftrightarrow> (\<exists>x. Awaiting x NeverSettles \<in> set sls)"
  by (induct sls rule: never_settles.induct) auto

lemma level_rejection_None:
  "level_rejection sls = None \<longleftrightarrow>
     (\<forall>e. Failed e \<notin> set sls) \<and> (\<forall>x t e. Awaiting x (Rejects t e) \<notin> set sls)"
proof (cases "first_failed sls")
  case None
  then have "level_rejection sls = None \<longleftrightarrow> first_rejected sls = None"
    by (simp add: level_rejection_def)
  with None show ?thesis by (simp add: first_failed_None first_rejected_None)
next
  case (Some e)
  then have "level_rejection sls \<noteq> None" by (simp add: level_rejection_def)
  moreover from first_failed_Some[OF Some] have "\<not> (\<forall>e. Failed e \<notin> set sls)" by blast
  ultimately show ?thesis by blast
qed

lemma level_rejection_Some:
  assumes "level_rejection sls = Some e"
  shows "Failed e \<in> set sls \<or> (\<exists>x t c. Awaiting x (Rejects t c) \<in> set sls \<and> e = wrap_error x c)"
proof (cases "first_failed sls")
  case None
  with assms obtain t where "first_rejected sls = Some (t, e)"
    by (auto simp: level_rejection_def)
  from first_rejected_Some[OF this] show ?thesis by blast
next
  case (Some e')
  with assms have "e' = e" by (simp add: level_rejection_def)
  with first_failed_Some[OF Some] show ?thesis by simp
qed

lemma slot_of_Failed:
  "slot_of c = Failed e \<Longrightarrow> failing_call c \<and> e = wrap_error (call_name c) (cause_of c)"
  by (cases "call_outcome c")
     (auto simp: slot_of_def failing_call_def cause_of_def split: if_splits)

lemma slot_of_Rejects:
  "slot_of c = Awaiting x (Rejects t e) \<Longrightarrow> x = call_name c \<and> failing_call c \<and> cause_of c = e"
  by (cases "call_outcome c")
     (auto simp: slot_of_def failing_call_def cause_of_def split: if_splits returned.splits)

lemma failing_call_slot:
  "failing_call c \<Longrightarrow> (\<exists>e. slot_of c = Failed e) \<or> (\<exists>t e. slot_of c = Awaiting (call_name c) (Rejects t e))"
  by (cases "call_outcome c")
     (auto simp: slot_of_def failing_call_def split: returned.splits promise.splits)

lemma no_value_slot:
  "\<not> has_value c \<Longrightarrow> (\<exists>e. slot_of c = Failed e)
      \<or> (\<exists>t e. slot_of c = Awaiting (call_name c) (Rejects t e))
      \<or> slot_of c = Awaiting (call_name c) NeverSettles"
  by (cases "call_outcome c")
     (auto simp: slot_of_def has_value_def async_value_def split: returned.splits promise.splits)

lemma level_names:
  assumes "level_facts w f flow L s sls s' new" "c \<in> set new"
  shows "call_name c \<in> set L" "callable w f flow (call_name c)"
proof -
  from assms(1) have "map call_name new = filter (callable w f flow) L" by (simp add: level_facts_def)
  moreover from assms(2) have "call_name c \<in> set (map call_name new)" by simp
  ultimately show "call_name c \<in> set L" "callable w f flow (call_name c)" by auto
qed

lemma level_rejected:
  assumes lf: "level_facts w f flow L s sls s' new" and rj: "level_rejection sls = Some e"
  shows "\<exists>x \<in> set L. \<exists>cause. e = wrap_error x cause
           \<and> ((cause = not_a_function \<and> has_key x (steps flow) \<and> \<not> callable w f flow x)
              \<or> (\<exists>c \<in> set new. call_name c = x \<and> failing_call c \<and> cause_of c = cause))"
proof -
  from lf have r1: "\<forall>sl \<in> set sls. sl = NoItem
           \<or> (\<exists>x \<in> set L. sl = Failed (wrap_error x not_a_function) \<and> has_key x (steps flow)
                 \<and> \<not> callable w f flow x)
           \<or> (\<exists>c \<in> set new. sl = slot_of c)" by (simp add: level_facts_def)
  from level_rejection_Some[OF rj] show ?thesis
  proof
    assume fe: "Failed e \<in> set sls"
    with r1 have "(\<exists>x \<in> set L. Failed e = Failed (wrap_error x not_a_function) \<and> has_key x (steps flow)
                 \<and> \<not> callable w f flow x)
           \<or> (\<exists>c \<in> set new. Failed e = slot_of c)" by blast
    then show ?thesis
    proof
      assume "\<exists>x \<in> set L. Failed e = Failed (wrap_error x not_a_function) \<and> has_key x (steps flow)
                 \<and> \<not> callable w f flow x"
      then show ?thesis by auto
    next
      assume "\<exists>c \<in> set new. Failed e = slot_of c"
      then obtain c where c: "c \<in> set new" "slot_of c = Failed e" by auto
      from slot_of_Failed[OF c(2)] level_names(1)[OF lf c(1)] c(1) show ?thesis by blast
    qed
  next
    assume "\<exists>x t c. Awaiting x (Rejects t c) \<in> set sls \<and> e = wrap_error x c"
    then obtain x t cause where a: "Awaiting x (Rejects t cause) \<in> set sls" "e = wrap_error x cause"
      by blast
    with r1 obtain c where c: "c \<in> set new" "slot_of c = Awaiting x (Rejects t cause)" by fastforce
    from slot_of_Rejects[OF c(2)] level_names(1)[OF lf c(1)] c(1) a(2) show ?thesis by blast
  qed
qed

lemma level_failing:
  assumes lf: "level_facts w f flow L s sls s' new" and c: "c \<in> set new" "failing_call c"
  shows "level_rejection sls \<noteq> None"
proof -
  from lf c(1) have "slot_of c \<in> set sls" by (simp add: level_facts_def)
  with failing_call_slot[OF c(2)] show ?thesis by (auto simp: level_rejection_None)
qed

lemma level_ok:
  assumes lf: "level_facts w f flow L s sls s' new"
    and ok: "level_rejection sls = None" "\<not> never_settles sls"
  shows "\<forall>c \<in> set new. has_value c"
    and "\<forall>x \<in> set L. has_key x (steps flow) \<longrightarrow> callable w f flow x"
    and "map call_name new = filter (\<lambda>n. has_key n (steps flow)) L"
proof -
  show v: "\<forall>c \<in> set new. has_value c"
  proof (rule ballI, rule ccontr)
    fix c assume c: "c \<in> set new" and nv: "\<not> has_value c"
    from lf c have "slot_of c \<in> set sls" by (simp add: level_facts_def)
    with no_value_slot[OF nv] ok show False by (auto simp: level_rejection_None never_settles_iff)
  qed
  from lf have "\<forall>x \<in> set L. has_key x (steps flow) \<and> \<not> callable w f flow x
           \<longrightarrow> Failed (wrap_error x not_a_function) \<in> set sls" by (simp add: level_facts_def)
  with ok(1) show cl: "\<forall>x \<in> set L. has_key x (steps flow) \<longrightarrow> callable w f flow x"
    by (auto simp: level_rejection_None)
  from lf have "map call_name new = filter (callable w f flow) L" by (simp add: level_facts_def)
  moreover from cl have "filter (callable w f flow) L = filter (\<lambda>n. has_key n (steps flow)) L"
    by (intro filter_cong) (auto simp: callable_def)
  ultimately show "map call_name new = filter (\<lambda>n. has_key n (steps flow)) L" by simp
qed

lemma collect_level_frame [simp]:
  "containers (collect_level sls t) = containers t"
  "world (collect_level sls t) = world t"
  "calls (collect_level sls t) = calls t"
  by (induct sls t rule: collect_level.induct) simp_all

lemma commit_awaited_frame [simp]:
  "ctx (commit_awaited sls t) = ctx t"
  "results (commit_awaited sls t) = results t"
  "world (commit_awaited sls t) = world t"
  "calls (commit_awaited sls t) = calls t"
  by (induct sls t rule: commit_awaited.induct) simp_all

lemma collect_level_filter: "collect_level sls t = collect_level (filter is_result sls) t"
  by (induct sls t rule: collect_level.induct) simp_all

lemma commit_awaited_filter: "commit_awaited sls t = commit_awaited (filter is_result sls) t"
  by (induct sls t rule: commit_awaited.induct) simp_all

lemma slot_of_cases:
  obtains (threw) e where "call_outcome c = Throws e" "slot_of c = Failed (wrap_error (call_name c) e)"
      "async_value c = None" "\<not> has_value c" "\<not> fulfilled_call c"
  | (plain) v where "call_outcome c = Returns (Plain v)" "slot_of c = Item (call_name c) v"
      "async_value c = Some v" "has_value c" "\<not> fulfilled_call c"
  | (fulfilled) v where "call_outcome c = Returns (Deferred (Fulfills v))"
      "slot_of c = Awaiting (call_name c) (Fulfills v)"
      "async_value c = Some v" "has_value c" "fulfilled_call c"
  | (rejected) t e where "call_outcome c = Returns (Deferred (Rejects t e))"
      "slot_of c = Awaiting (call_name c) (Rejects t e)"
      "async_value c = None" "\<not> has_value c" "\<not> fulfilled_call c"
  | (never) "call_outcome c = Returns (Deferred NeverSettles)"
      "slot_of c = Awaiting (call_name c) NeverSettles"
      "async_value c = None" "\<not> has_value c" "\<not> fulfilled_call c"
proof (cases "call_outcome c")
  case (Throws e)
  then show ?thesis
    by (intro threw[of e]) (simp_all add: slot_of_def async_value_def has_value_def fulfilled_call_def)
next
  case (Returns r)
  show ?thesis
  proof (cases r)
    case (Plain v)
    with Returns show ?thesis
      by (intro plain[of v]) (simp_all add: slot_of_def async_value_def has_value_def fulfilled_call_def)
  next
    case (Deferred p)
    show ?thesis
    proof (cases p)
      case (Fulfills v)
      with Deferred Returns show ?thesis
        by (intro fulfilled[of v])
           (simp_all add: slot_of_def async_value_def has_value_def fulfilled_call_def)
    next
      case (Rejects t e)
      with Deferred Returns show ?thesis
        by (intro rejected[of t e])
           (simp_all add: slot_of_def async_value_def has_value_def fulfilled_call_def)
    next
      case NeverSettles
      with Deferred Returns show ?thesis
        by (intro never) (simp_all add: slot_of_def async_value_def has_value_def fulfilled_call_def)
    qed
  qed
qed

lemma collect_level_calls:
  "ctx (collect_level (filter is_result (map slot_of new)) t) = record_async (ctx t) new
   \<and> results (collect_level (filter is_result (map slot_of new)) t) = record_async (results t) new"
proof (induct new arbitrary: t)
  case Nil
  show ?case by simp
next
  case (Cons c new)
  let ?t = "\<lambda>v. t\<lparr>ctx := (ctx t)(call_name c \<mapsto> v), results := (results t)(call_name c \<mapsto> v)\<rparr>"
  have up: "\<And>v. ctx (collect_level (filter is_result (map slot_of new)) (?t v))
                 = record_async ((ctx t)(call_name c \<mapsto> v)) new
              \<and> results (collect_level (filter is_result (map slot_of new)) (?t v))
                 = record_async ((results t)(call_name c \<mapsto> v)) new"
  proof -
    fix v
    have "ctx (?t v) = (ctx t)(call_name c \<mapsto> v)" "results (?t v) = (results t)(call_name c \<mapsto> v)"
      by simp_all
    with Cons[of "?t v"] show "ctx (collect_level (filter is_result (map slot_of new)) (?t v))
                 = record_async ((ctx t)(call_name c \<mapsto> v)) new
              \<and> results (collect_level (filter is_result (map slot_of new)) (?t v))
                 = record_async ((results t)(call_name c \<mapsto> v)) new" by metis
  qed
  show ?case
  proof (cases c rule: slot_of_cases)
    case (threw e)
    then have "filter is_result (map slot_of (c # new)) = filter is_result (map slot_of new)"
      "record_async (ctx t) (c # new) = record_async (ctx t) new"
      "record_async (results t) (c # new) = record_async (results t) new"
      by (simp_all add: record_async_def)
    with Cons[of t] show ?thesis by metis
  next
    case (plain v)
    then have "collect_level (filter is_result (map slot_of (c # new))) t
        = collect_level (filter is_result (map slot_of new)) (?t v)"
      "record_async (ctx t) (c # new) = record_async ((ctx t)(call_name c \<mapsto> v)) new"
      "record_async (results t) (c # new) = record_async ((results t)(call_name c \<mapsto> v)) new"
      by (simp_all add: record_async_def)
    with up[of v] show ?thesis by metis
  next
    case (fulfilled v)
    then have "collect_level (filter is_result (map slot_of (c # new))) t
        = collect_level (filter is_result (map slot_of new)) (?t v)"
      "record_async (ctx t) (c # new) = record_async ((ctx t)(call_name c \<mapsto> v)) new"
      "record_async (results t) (c # new) = record_async ((results t)(call_name c \<mapsto> v)) new"
      by (simp_all add: record_async_def)
    with up[of v] show ?thesis by metis
  next
    case (rejected n e)
    then have "collect_level (filter is_result (map slot_of (c # new))) t
        = collect_level (filter is_result (map slot_of new)) t"
      "record_async (ctx t) (c # new) = record_async (ctx t) new"
      "record_async (results t) (c # new) = record_async (results t) new"
      by (simp_all add: record_async_def)
    with Cons[of t] show ?thesis by metis
  next
    case never
    then have "collect_level (filter is_result (map slot_of (c # new))) t
        = collect_level (filter is_result (map slot_of new)) t"
      "record_async (ctx t) (c # new) = record_async (ctx t) new"
      "record_async (results t) (c # new) = record_async (results t) new"
      by (simp_all add: record_async_def)
    with Cons[of t] show ?thesis by metis
  qed
qed

lemma commit_awaited_calls:
  "containers (commit_awaited (filter is_result (map slot_of new)) t)
     = record_where fulfilled_call (containers t) new"
proof (induct new arbitrary: t)
  case Nil
  show ?case by simp
next
  case (Cons c new)
  let ?t = "\<lambda>v. t\<lparr>containers := (containers t)(call_name c \<mapsto> v)\<rparr>"
  have up: "\<And>v. containers (commit_awaited (filter is_result (map slot_of new)) (?t v))
                 = record_where fulfilled_call ((containers t)(call_name c \<mapsto> v)) new"
  proof -
    fix v
    have "containers (?t v) = (containers t)(call_name c \<mapsto> v)" by simp
    with Cons[of "?t v"] show "containers (commit_awaited (filter is_result (map slot_of new)) (?t v))
                 = record_where fulfilled_call ((containers t)(call_name c \<mapsto> v)) new" by metis
  qed
  show ?case
  proof (cases c rule: slot_of_cases)
    case (threw e)
    then have "commit_awaited (filter is_result (map slot_of (c # new))) t
        = commit_awaited (filter is_result (map slot_of new)) t"
      "record_where fulfilled_call (containers t) (c # new)
        = record_where fulfilled_call (containers t) new" by simp_all
    with Cons[of t] show ?thesis by metis
  next
    case (plain v)
    then have "commit_awaited (filter is_result (map slot_of (c # new))) t
        = commit_awaited (filter is_result (map slot_of new)) t"
      "record_where fulfilled_call (containers t) (c # new)
        = record_where fulfilled_call (containers t) new" by simp_all
    with Cons[of t] show ?thesis by metis
  next
    case (fulfilled v)
    then have "commit_awaited (filter is_result (map slot_of (c # new))) t
        = commit_awaited (filter is_result (map slot_of new)) (?t v)"
      "record_where fulfilled_call (containers t) (c # new)
        = record_where fulfilled_call ((containers t)(call_name c \<mapsto> v)) new" by simp_all
    with up[of v] show ?thesis by metis
  next
    case (rejected n e)
    then have "commit_awaited (filter is_result (map slot_of (c # new))) t
        = commit_awaited (filter is_result (map slot_of new)) t"
      "record_where fulfilled_call (containers t) (c # new)
        = record_where fulfilled_call (containers t) new" by simp_all
    with Cons[of t] show ?thesis by metis
  next
    case never
    then have "commit_awaited (filter is_result (map slot_of (c # new))) t
        = commit_awaited (filter is_result (map slot_of new)) t"
      "record_where fulfilled_call (containers t) (c # new)
        = record_where fulfilled_call (containers t) new" by simp_all
    with Cons[of t] show ?thesis by metis
  qed
qed

text \<open>The container store after a level whose calls were \<open>new\<close>.\<close>

definition store_after ::
  "('a, 'w) WorkflowInstance \<Rightarrow> string \<Rightarrow> (string \<rightharpoonup> 'a val) \<Rightarrow> 'a call list \<Rightarrow> (string \<rightharpoonup> 'a val)" where
  "store_after w f mp new =
     (if f = buildFlowName w
      then record_where fulfilled_call (record_where plain_call mp new) new
      else mp)"

lemma execute_levels_Cons:
  assumes "execute_levels w f flow (L # rest) s = (r, s')"
  obtains
    (reject) sls s1 new e where
      "level_facts w f flow L s sls s1 new" "level_rejection sls = Some e" "r = Thrown e"
      "calls s' = calls s @ new" "ctx s' = ctx s" "results s' = results s"
      "containers s' = store_after w f (containers s) new"
  | (never) sls s1 new where
      "level_facts w f flow L s sls s1 new" "level_rejection sls = None" "never_settles sls"
      "r = NeverSettled"
      "calls s' = calls s @ new" "ctx s' = ctx s" "results s' = results s"
      "containers s' = store_after w f (containers s) new"
  | (continue) sls s1 new s3 where
      "level_facts w f flow L s sls s1 new" "level_rejection sls = None" "\<not> never_settles sls"
      "execute_levels w f flow rest s3 = (r, s')"
      "calls s3 = calls s @ new" "ctx s3 = record_async (ctx s) new"
      "results s3 = record_async (results s) new"
      "containers s3 = store_after w f (containers s) new"
proof -
  obtain sls s1 where d: "dispatch_level w f flow L s = (sls, s1)"
    by (cases "dispatch_level w f flow L s")
  from dispatch_level_run[OF d] obtain new where lf: "level_facts w f flow L s sls s1 new" by blast
  note f = lf[unfolded level_facts_def]
  let ?s2 = "if f = buildFlowName w then commit_awaited sls s1 else s1"
  from f have fr: "filter is_result sls = filter is_result (map slot_of new)" by simp
  have c2: "calls ?s2 = calls s @ new" "ctx ?s2 = ctx s" "results ?s2 = results s"
    using f by simp_all
  have k2: "containers ?s2 = store_after w f (containers s) new"
  proof (cases "f = buildFlowName w")
    case True
    have "containers (commit_awaited sls s1)
        = containers (commit_awaited (filter is_result (map slot_of new)) s1)"
      using commit_awaited_filter[of sls s1] fr by simp
    also have "\<dots> = record_where fulfilled_call (containers s1) new" by (rule commit_awaited_calls)
    finally show ?thesis using True f by (simp add: store_after_def)
  next
    case False
    with f show ?thesis by (simp add: store_after_def)
  qed
  show ?thesis
  proof (cases "level_rejection sls")
    case (Some e)
    with assms d have "r = Thrown e" "s' = ?s2" by (simp_all add: Let_def)
    with c2 k2 show ?thesis by (intro reject[OF lf Some]) simp_all
  next
    case None
    show ?thesis
    proof (cases "never_settles sls")
      case True
      with None assms d have "r = NeverSettled" "s' = ?s2" by (simp_all add: Let_def)
      with c2 k2 show ?thesis by (intro never[OF lf None True]) simp_all
    next
      case False
      let ?s3 = "collect_level sls ?s2"
      from None False assms d have ex: "execute_levels w f flow rest ?s3 = (r, s')"
        by (simp add: Let_def)
      have cl: "collect_level sls ?s2 = collect_level (filter is_result (map slot_of new)) ?s2"
        using collect_level_filter[of sls ?s2] fr by simp
      from collect_level_calls[of new ?s2] cl c2 have
        "ctx ?s3 = record_async (ctx s) new" "results ?s3 = record_async (results s) new"
        by simp_all
      moreover have "calls ?s3 = calls s @ new" using c2 by simp
      moreover have "containers ?s3 = store_after w f (containers s) new" using k2 by simp
      ultimately show ?thesis by (intro continue[OF lf None False ex])
    qed
  qed
qed

lemma execute_levels_calls:
  "execute_levels w f flow lvls s = (r, s') \<Longrightarrow> \<exists>new. calls s' = calls s @ new"
proof (induct lvls arbitrary: s)
  case Nil
  then show ?case by simp
next
  case (Cons L rest)
  from Cons.prems show ?case
  proof (cases rule: execute_levels_Cons)
    case (continue sls s1 new s3)
    from Cons.hyps[OF continue(4)] obtain nrest where "calls s' = calls s3 @ nrest" by blast
    with continue(5) show ?thesis by simp
  qed auto
qed

lemma execute_levels_split:
  assumes "execute_levels w f flow rest s3 = (r, s')" "calls s3 = calls s @ newL"
    "calls s' = calls s @ new"
  obtains nrest where "new = newL @ nrest" "calls s' = calls s3 @ nrest"
proof -
  from execute_levels_calls[OF assms(1)] obtain nrest where n: "calls s' = calls s3 @ nrest" by blast
  with assms(2,3) have "new = newL @ nrest" by simp
  from that[OF this n] show ?thesis .
qed

lemma execute_levels_frame:
  "execute_levels w f flow lvls s = (r, s') \<Longrightarrow> f \<noteq> buildFlowName w \<Longrightarrow>
     containers s' = containers s"
proof (induct lvls arbitrary: s)
  case Nil
  then show ?case by simp
next
  case (Cons L rest)
  from Cons.prems(1) show ?case
  proof (cases rule: execute_levels_Cons)
    case (reject sls s1 new e)
    with Cons.prems(2) show ?thesis by (simp add: store_after_def)
  next
    case (never sls s1 new)
    with Cons.prems(2) show ?thesis by (simp add: store_after_def)
  next
    case (continue sls s1 new s3)
    from Cons.hyps[OF continue(4) Cons.prems(2)] continue(8) Cons.prems(2)
    show ?thesis by (simp add: store_after_def)
  qed
qed

lemma execute_levels_names:
  assumes "execute_levels w f flow lvls s = (r, s')" "calls s' = calls s @ new"
  shows "(\<exists>k \<le> length lvls. map call_name new = filter (callable w f flow) (concat (take k lvls)))
       \<and> (\<forall>c \<in> set new. is_StepCall c \<longleftrightarrow> f = buildFlowName w)"
  using assms
proof (induct lvls arbitrary: s new)
  case Nil
  then show ?case by simp
next
  case (Cons L rest)
  have one: "\<And>newL sls s1. level_facts w f flow L s sls s1 newL \<Longrightarrow>
      map call_name newL = filter (callable w f flow) (concat (take 1 (L # rest)))
      \<and> (\<forall>c \<in> set newL. is_StepCall c \<longleftrightarrow> f = buildFlowName w)"
    by (simp add: level_facts_def)
  from Cons.prems(1) show ?case
  proof (cases rule: execute_levels_Cons)
    case (reject sls s1 newL e)
    with Cons.prems(2) have "new = newL" by simp
    with one[OF reject(1)] show ?thesis by (intro conjI exI[of _ 1]) simp_all
  next
    case (never sls s1 newL)
    with Cons.prems(2) have "new = newL" by simp
    with one[OF never(1)] show ?thesis by (intro conjI exI[of _ 1]) simp_all
  next
    case (continue sls s1 newL s3)
    from execute_levels_split[OF continue(4,5) Cons.prems(2)] obtain nrest where
      n: "new = newL @ nrest" "calls s' = calls s3 @ nrest" by blast
    from Cons.hyps[OF continue(4) n(2)] obtain k where
      k: "k \<le> length rest" "map call_name nrest = filter (callable w f flow) (concat (take k rest))"
      and sc: "\<forall>c \<in> set nrest. is_StepCall c \<longleftrightarrow> f = buildFlowName w" by blast
    from one[OF continue(1)] k n(1) have
      "map call_name new = filter (callable w f flow) (concat (take (Suc k) (L # rest)))" by simp
    moreover from k(1) have "Suc k \<le> length (L # rest)" by simp
    moreover from one[OF continue(1)] sc n(1) have
      "\<forall>c \<in> set new. is_StepCall c \<longleftrightarrow> f = buildFlowName w" by auto
    ultimately show ?thesis by blast
  qed
qed

lemma execute_levels_failing:
  assumes "execute_levels w f flow lvls s = (r, s')" "calls s' = calls s @ new"
    "c \<in> set new" "failing_call c"
  shows "\<exists>e. r = Thrown e"
  using assms
proof (induct lvls arbitrary: s new)
  case Nil
  then show ?case by simp
next
  case (Cons L rest)
  from Cons.prems(1) show ?case
  proof (cases rule: execute_levels_Cons)
    case (reject sls s1 newL e)
    then show ?thesis by simp
  next
    case (never sls s1 newL)
    with Cons.prems(2) have "new = newL" by simp
    with level_failing[OF never(1)] Cons.prems(3,4) never(2) show ?thesis by blast
  next
    case (continue sls s1 newL s3)
    from execute_levels_split[OF continue(4,5) Cons.prems(2)] obtain nrest where
      n: "new = newL @ nrest" "calls s' = calls s3 @ nrest" by blast
    from level_failing[OF continue(1)] continue(2) Cons.prems(4) have "c \<notin> set newL" by blast
    with n(1) Cons.prems(3) have "c \<in> set nrest" by simp
    from Cons.hyps[OF continue(4) n(2) this Cons.prems(4)] show ?thesis .
  qed
qed

lemma has_value_not_failing: "has_value c \<Longrightarrow> \<not> failing_call c"
  by (cases c rule: slot_of_cases) (simp_all add: failing_call_def)

text \<open>
  A concurrent run that throws: the levels before the rejected one went through, the
  rejected level was started in full, no later level was, and the error wraps the failure
  of a step of the rejected level.
\<close>

lemma execute_levels_Thrown:
  assumes "execute_levels w f flow lvls s = (Thrown e, s')" "calls s' = calls s @ new"
  shows "\<exists>pre L post newpre newL x cause.
           lvls = pre @ L # post \<and> new = newpre @ newL
           \<and> map call_name newpre = filter (\<lambda>n. has_key n (steps flow)) (concat pre)
           \<and> (\<forall>c \<in> set newpre. has_value c)
           \<and> map call_name newL = filter (callable w f flow) L
           \<and> x \<in> set L \<and> e = wrap_error x cause
           \<and> ((cause = not_a_function \<and> has_key x (steps flow) \<and> \<not> callable w f flow x)
              \<or> (\<exists>c \<in> set newL. call_name c = x \<and> failing_call c \<and> cause_of c = cause))"
  using assms
proof (induct lvls arbitrary: s new)
  case Nil
  then show ?case by simp
next
  case (Cons L rest)
  from Cons.prems(1) show ?case
  proof (cases rule: execute_levels_Cons)
    case (reject sls s1 newL e')
    with Cons.prems(2) have nw: "new = newL" and e: "e' = e" by simp_all
    from level_rejected[OF reject(1)] reject(2) e obtain x cause where
      x: "x \<in> set L" "e = wrap_error x cause"
         "(cause = not_a_function \<and> has_key x (steps flow) \<and> \<not> callable w f flow x)
              \<or> (\<exists>c \<in> set newL. call_name c = x \<and> failing_call c \<and> cause_of c = cause)" by blast
    from reject(1) have nm: "map call_name newL = filter (callable w f flow) L"
      by (simp add: level_facts_def)
    from nw nm x show ?thesis
      by (intro exI[of _ "[]"] exI[of _ L] exI[of _ rest] exI[of _ newL] exI[of _ x] exI[of _ cause])
         simp
  next
    case (never sls s1 newL)
    then show ?thesis by simp
  next
    case (continue sls s1 newL s3)
    from execute_levels_split[OF continue(4,5) Cons.prems(2)] obtain nrest where
      n: "new = newL @ nrest" "calls s' = calls s3 @ nrest" by blast
    from Cons.hyps[OF continue(4) n(2)] obtain pre L' post newpre newL' x cause where
      ih: "rest = pre @ L' # post" "nrest = newpre @ newL'"
          "map call_name newpre = filter (\<lambda>n. has_key n (steps flow)) (concat pre)"
          "\<forall>c \<in> set newpre. has_value c"
          "map call_name newL' = filter (callable w f flow) L'"
          "x \<in> set L'" "e = wrap_error x cause"
          "(cause = not_a_function \<and> has_key x (steps flow) \<and> \<not> callable w f flow x)
              \<or> (\<exists>c \<in> set newL'. call_name c = x \<and> failing_call c \<and> cause_of c = cause)"
      by blast
    note ok = level_ok[OF continue(1,2,3)]
    from ih(1) have a: "L # rest = (L # pre) @ L' # post" by simp
    from n(1) ih(2) have b: "new = (newL @ newpre) @ newL'" by simp
    from ok(3) ih(3) have c: "map call_name (newL @ newpre)
        = filter (\<lambda>n. has_key n (steps flow)) (concat (L # pre))" by simp
    from ok(1) ih(4) have d: "\<forall>c \<in> set (newL @ newpre). has_value c" by auto
    from a b c d ih(5,6,7,8) show ?thesis
      by (intro exI[of _ "L # pre"] exI[of _ L'] exI[of _ post] exI[of _ "newL @ newpre"]
                exI[of _ newL'] exI[of _ x] exI[of _ cause]) blast
  qed
qed

lemma execute_levels_Returned:
  assumes "execute_levels w f flow lvls s = (Returned u, s')" "calls s' = calls s @ new"
  shows "map call_name new = filter (\<lambda>n. has_key n (steps flow)) (concat lvls)
       \<and> (\<forall>c \<in> set new. has_value c)
       \<and> results s' = record_async (results s) new
       \<and> ctx s' = record_async (ctx s) new"
  using assms
proof (induct lvls arbitrary: s new)
  case Nil
  then show ?case by simp
next
  case (Cons L rest)
  from Cons.prems(1) show ?case
  proof (cases rule: execute_levels_Cons)
    case (continue sls s1 newL s3)
    from execute_levels_split[OF continue(4,5) Cons.prems(2)] obtain nrest where
      n: "new = newL @ nrest" "calls s' = calls s3 @ nrest" by blast
    note ok = level_ok[OF continue(1,2,3)]
    from Cons.hyps[OF continue(4) n(2)] have ih:
      "map call_name nrest = filter (\<lambda>n. has_key n (steps flow)) (concat rest)"
      "\<forall>c \<in> set nrest. has_value c"
      "results s' = record_async (results s3) nrest"
      "ctx s' = record_async (ctx s3) nrest" by simp_all
    from ok(3) ih(1) n(1) have "map call_name new
        = filter (\<lambda>n. has_key n (steps flow)) (concat (L # rest))" by simp
    moreover from ok(1) ih(2) n(1) have "\<forall>c \<in> set new. has_value c" by auto
    moreover from ih(3,4) continue(6,7) n(1) have
      "results s' = record_async (results s) new" "ctx s' = record_async (ctx s) new"
      by (simp_all add: record_async_append)
    ultimately show ?thesis by blast
  qed simp_all
qed

lemma has_value_cases: "has_value c \<Longrightarrow> plain_call c \<or> fulfilled_call c"
  by (cases c rule: slot_of_cases) (simp_all add: plain_call_def)

lemma store_after_hit:
  assumes "f = buildFlowName w" "distinct (map call_name new)" "c \<in> set new" "has_value c"
  shows "store_after w f mp new (call_name c) = async_value c"
proof (cases "fulfilled_call c")
  case True
  with record_where_hit[OF assms(2,3), of fulfilled_call] assms(1) show ?thesis
    by (simp add: store_after_def)
next
  case False
  with has_value_cases[OF assms(4)] have "plain_call c" by simp
  with False record_where_hit[OF assms(2,3), of fulfilled_call "record_where plain_call mp new"]
    record_where_hit[OF assms(2,3), of plain_call mp] assms(1)
  show ?thesis by (simp add: store_after_def)
qed

lemma store_after_other:
  "k \<notin> call_name ` set new \<Longrightarrow> store_after w f mp new k = mp k"
  by (simp add: store_after_def record_where_other)

lemma level_distinct:
  assumes "level_facts w f flow L s sls s1 new" "distinct L"
  shows "distinct (map call_name new)" "call_name ` set new \<subseteq> set L"
proof -
  from assms(1) have n: "map call_name new = filter (callable w f flow) L"
    by (simp add: level_facts_def)
  with assms(2) show "distinct (map call_name new)" by simp
  from n have "set (map call_name new) \<subseteq> set L" by simp
  then show "call_name ` set new \<subseteq> set L" by simp
qed

lemma execute_levels_name_set:
  assumes "execute_levels w f flow lvls s = (r, s')" "calls s' = calls s @ new"
  shows "call_name ` set new \<subseteq> set (concat lvls)"
proof -
  from execute_levels_names[OF assms] obtain k where
    "map call_name new = filter (callable w f flow) (concat (take k lvls))" by blast
  then have "set (map call_name new) = set (filter (callable w f flow) (concat (take k lvls)))"
    by simp
  then have "set (map call_name new) \<subseteq> set (concat (take k lvls))" by auto
  moreover have "set (concat (take k lvls)) \<subseteq> set (concat lvls)"
    by (auto dest: in_set_takeD)
  ultimately show ?thesis by auto
qed

lemma execute_levels_store:
  assumes "execute_levels w f flow lvls s = (r, s')" "calls s' = calls s @ new"
    "f = buildFlowName w" "distinct (concat lvls)"
  shows "(\<forall>c \<in> set new. has_value c \<longrightarrow> containers s' (call_name c) = async_value c)
       \<and> (\<forall>k. k \<notin> call_name ` set new \<longrightarrow> containers s' k = containers s k)"
  using assms(1,2,4)
proof (induct lvls arbitrary: s new)
  case Nil
  then show ?case by simp
next
  case (Cons L rest)
  from Cons.prems(3) have dL: "distinct L" and dr: "distinct (concat rest)"
    and dj: "set L \<inter> set (concat rest) = {}" by auto
  have stop: "\<And>sls s1. level_facts w f flow L s sls s1 new \<Longrightarrow>
      containers s' = store_after w f (containers s) new \<Longrightarrow> ?case"
  proof -
    fix sls s1 assume lf: "level_facts w f flow L s sls s1 new"
      and cs: "containers s' = store_after w f (containers s) new"
    from level_distinct(1)[OF lf dL] cs assms(3) show ?case
      by (auto simp: store_after_hit store_after_other)
  qed
  from Cons.prems(1) show ?case
  proof (cases rule: execute_levels_Cons)
    case (reject sls s1 newL e)
    with Cons.prems(2) have "new = newL" by simp
    with reject stop show ?thesis by blast
  next
    case (never sls s1 newL)
    with Cons.prems(2) have "new = newL" by simp
    with never stop show ?thesis by blast
  next
    case (continue sls s1 newL s3)
    from execute_levels_split[OF continue(4,5) Cons.prems(2)] obtain nrest where
      n: "new = newL @ nrest" "calls s' = calls s3 @ nrest" by blast
    from Cons.hyps[OF continue(4) n(2) dr] have
      ih1: "\<forall>c \<in> set nrest. has_value c \<longrightarrow> containers s' (call_name c) = async_value c"
      and ih2: "\<forall>k. k \<notin> call_name ` set nrest \<longrightarrow> containers s' k = containers s3 k" by simp_all
    note ld = level_distinct[OF continue(1) dL]
    from execute_levels_name_set[OF continue(4) n(2)] have nr: "call_name ` set nrest \<subseteq> set (concat rest)" .
    have a: "\<forall>c \<in> set new. has_value c \<longrightarrow> containers s' (call_name c) = async_value c"
    proof (intro ballI impI)
      fix c assume c: "c \<in> set new" and hv: "has_value c"
      show "containers s' (call_name c) = async_value c"
      proof (cases "c \<in> set nrest")
        case True
        with ih1 hv show ?thesis by simp
      next
        case False
        with c n(1) have cl: "c \<in> set newL" by simp
        with ld(2) have "call_name c \<in> set L" by auto
        with dj have "call_name c \<notin> set (concat rest)" by blast
        with nr have "call_name c \<notin> call_name ` set nrest" by blast
        with ih2 have "containers s' (call_name c) = containers s3 (call_name c)" by simp
        with continue(8) store_after_hit[OF assms(3) ld(1) cl hv] show ?thesis by simp
      qed
    qed
    have b: "\<forall>k. k \<notin> call_name ` set new \<longrightarrow> containers s' k = containers s k"
    proof (intro allI impI)
      fix k assume k: "k \<notin> call_name ` set new"
      with n(1) have k1: "k \<notin> call_name ` set newL" and k2: "k \<notin> call_name ` set nrest" by auto
      from ih2 k2 have "containers s' k = containers s3 k" by simp
      with continue(8) store_after_other[OF k1] show "containers s' k = containers s k" by simp
    qed
    from a b show ?thesis by blast
  qed
qed

text \<open>
  In a concurrent run of a user flow, the context a call is given holds the values of the
  calls of all earlier levels, and every step of an earlier level that has an action has
  been called and has a value.
\<close>

lemma execute_levels_ctx:
  assumes "execute_levels w f flow lvls s = (r, s')" "calls s' = calls s @ new"
    "f \<noteq> buildFlowName w" "distinct (concat lvls)"
  shows "\<forall>c \<in> set new. \<exists>j < length lvls. call_name c \<in> set (lvls ! j)
           \<and> call_map c = record_async (ctx s)
                 (filter (\<lambda>c'. call_name c' \<in> set (concat (take j lvls))) new)
           \<and> (\<forall>x \<in> set (concat (take j lvls)). has_key x (steps flow)
                 \<longrightarrow> (\<exists>c' \<in> set new. call_name c' = x \<and> has_value c'))"
  using assms(1,2,4)
proof (induct lvls arbitrary: s new)
  case Nil
  then show ?case by simp
next
  case (Cons L rest)
  from Cons.prems(3) have dL: "distinct L" and dr: "distinct (concat rest)"
    and dj: "set L \<inter> set (concat rest) = {}" by auto
  have first: "\<And>sls s1 newL c. level_facts w f flow L s sls s1 newL \<Longrightarrow> c \<in> set newL \<Longrightarrow>
      0 < length (L # rest) \<and> call_name c \<in> set ((L # rest) ! 0)
      \<and> call_map c = record_async (ctx s)
            (filter (\<lambda>c'. call_name c' \<in> set (concat (take 0 (L # rest)))) new)
      \<and> (\<forall>x \<in> set (concat (take 0 (L # rest))). has_key x (steps flow)
            \<longrightarrow> (\<exists>c' \<in> set new. call_name c' = x \<and> has_value c'))"
  proof -
    fix sls s1 newL c assume lf: "level_facts w f flow L s sls s1 newL" and c: "c \<in> set newL"
    from lf c assms(3) have "call_map c = ctx s" by (simp add: level_facts_def)
    with level_names(1)[OF lf c] show "0 < length (L # rest) \<and> call_name c \<in> set ((L # rest) ! 0)
      \<and> call_map c = record_async (ctx s)
            (filter (\<lambda>c'. call_name c' \<in> set (concat (take 0 (L # rest)))) new)
      \<and> (\<forall>x \<in> set (concat (take 0 (L # rest))). has_key x (steps flow)
            \<longrightarrow> (\<exists>c' \<in> set new. call_name c' = x \<and> has_value c'))" by simp
  qed
  from Cons.prems(1) show ?case
  proof (cases rule: execute_levels_Cons)
    case (reject sls s1 newL e)
    with Cons.prems(2) have "new = newL" by simp
    with first[OF reject(1)] show ?thesis by blast
  next
    case (never sls s1 newL)
    with Cons.prems(2) have "new = newL" by simp
    with first[OF never(1)] show ?thesis by blast
  next
    case (continue sls s1 newL s3)
    from execute_levels_split[OF continue(4,5) Cons.prems(2)] obtain nrest where
      n: "new = newL @ nrest" "calls s' = calls s3 @ nrest" by blast
    note ok = level_ok[OF continue(1,2,3)]
    note ld = level_distinct[OF continue(1) dL]
    from execute_levels_name_set[OF continue(4) n(2)] have nr: "call_name ` set nrest \<subseteq> set (concat rest)" .
    show ?thesis
    proof
      fix c assume c: "c \<in> set new"
      show "\<exists>j < length (L # rest). call_name c \<in> set ((L # rest) ! j)
           \<and> call_map c = record_async (ctx s)
                 (filter (\<lambda>c'. call_name c' \<in> set (concat (take j (L # rest)))) new)
           \<and> (\<forall>x \<in> set (concat (take j (L # rest))). has_key x (steps flow)
                 \<longrightarrow> (\<exists>c' \<in> set new. call_name c' = x \<and> has_value c'))"
      proof (cases "c \<in> set newL")
        case True
        from first[OF continue(1) True] show ?thesis by blast
      next
        case False
        with c n(1) have cr: "c \<in> set nrest" by simp
        from Cons.hyps[OF continue(4) n(2) dr] cr obtain j where
          j: "j < length rest" "call_name c \<in> set (rest ! j)"
             "call_map c = record_async (ctx s3)
                 (filter (\<lambda>c'. call_name c' \<in> set (concat (take j rest))) nrest)"
             "\<forall>x \<in> set (concat (take j rest)). has_key x (steps flow)
                 \<longrightarrow> (\<exists>c' \<in> set nrest. call_name c' = x \<and> has_value c')" by blast
        let ?P = "\<lambda>c'. call_name c' \<in> set (concat (take (Suc j) (L # rest)))"
        have f1: "filter ?P newL = newL" using ld(2) by (intro filter_True) auto
        have nl: "\<And>c'. c' \<in> set nrest \<Longrightarrow> call_name c' \<notin> set L"
        proof -
          fix c' assume "c' \<in> set nrest"
          with nr have "call_name c' \<in> set (concat rest)" by blast
          with dj show "call_name c' \<notin> set L" by blast
        qed
        have f2: "filter ?P nrest = filter (\<lambda>c'. call_name c' \<in> set (concat (take j rest))) nrest"
          using nl by (intro filter_cong) auto
        from f1 f2 n(1) have "filter ?P new
            = newL @ filter (\<lambda>c'. call_name c' \<in> set (concat (take j rest))) nrest" by simp
        with j(3) continue(6) have cm: "call_map c = record_async (ctx s) (filter ?P new)"
          by (simp add: record_async_append)
        have ex: "\<forall>x \<in> set (concat (take (Suc j) (L # rest))). has_key x (steps flow)
                 \<longrightarrow> (\<exists>c' \<in> set new. call_name c' = x \<and> has_value c')"
        proof (intro ballI impI)
          fix x assume x: "x \<in> set (concat (take (Suc j) (L # rest)))" and hk: "has_key x (steps flow)"
          then consider "x \<in> set L" | "x \<in> set (concat (take j rest))" by auto
          then show "\<exists>c' \<in> set new. call_name c' = x \<and> has_value c'"
          proof cases
            case 1
            with hk ok(3) have "x \<in> set (map call_name newL)" by simp
            then obtain c' where "c' \<in> set newL" "call_name c' = x" by auto
            with ok(1) n(1) show ?thesis by auto
          next
            case 2
            with j(4) hk n(1) show ?thesis by auto
          qed
        qed
        from j(1,2) cm ex show ?thesis by (intro exI[of _ "Suc j"]) simp
      qed
    qed
  qed
qed

subsection \<open>Whole runs\<close>

lemma execute_steps_frame:
  "execute_steps w f flow xs s = (r, s') \<Longrightarrow> f \<noteq> buildFlowName w \<Longrightarrow>
     containers s' = containers s"
proof (induct xs arbitrary: s)
  case Nil
  then show ?case by simp
next
  case (Cons x xs)
  obtain r1 s1 where st: "execute_step w f flow x s = (r1, s1)"
    by (cases "execute_step w f flow x s")
  from execute_step_frame(1)[OF st Cons.prems(2)] have c1: "containers s1 = containers s" .
  show ?case
  proof (cases r1)
    case None
    with st Cons.prems(1) have "execute_steps w f flow xs s1 = (r, s')" by simp
    from Cons.hyps[OF this Cons.prems(2)] c1 show ?thesis by simp
  next
    case (Some e)
    with st Cons.prems(1) have "s' = s1" by simp
    with c1 show ?thesis by simp
  qed
qed

lemma execute_frame:
  assumes "f \<noteq> buildFlowName w"
  shows "containers (snd (execute w f m)) = containers m"
proof (cases "map_of (flows w) f")
  case None
  then show ?thesis by (simp add: execute_def)
next
  case (Some flow)
  show ?thesis
  proof (cases "calculateFlowExecutionOrder flow")
    case (Inl e)
    with Some show ?thesis by (simp add: execute_def)
  next
    case (Inr order)
    obtain r s where st: "execute_steps w f flow order (start_run m) = (r, s)"
      by (cases "execute_steps w f flow order (start_run m)")
    from execute_steps_frame[OF st assms] have "containers s = containers m" by simp
    with Some Inr st show ?thesis by (cases r) (simp_all add: execute_def)
  qed
qed

text \<open>The levels \<open>executeAsync\<close> computes for an execution order.\<close>

lemma executeAsync_levels:
  assumes "calculateFlowExecutionOrder flow = Inr order"
  shows "\<exists>levels stepLevels. groupStepsByLevel (Suc (length order)) flow order = Some levels
           \<and> levels_inv (dependencies flow) order levels stepLevels
           \<and> distinct (concat levels) \<and> set (concat levels) = set order"
proof -
  from assms have d: "distinct order"
    using topologicalSort_Inr(2) by (simp add: calculateFlowExecutionOrder_def)
  have "\<exists>levels stepLevels. groupStepsByLevel (Suc (length order)) flow order = Some levels
           \<and> levels_inv (dependencies flow) order levels stepLevels"
  proof (cases order)
    case Nil
    then show ?thesis by (simp add: groupStepsByLevel_def levels_inv_def)
  next
    case (Cons x xs)
    then have "2 \<le> Suc (length order)" by simp
    from groupStepsByLevel_sorted[OF assms this] show ?thesis .
  qed
  then obtain levels stepLevels where
    l: "groupStepsByLevel (Suc (length order)) flow order = Some levels"
       "levels_inv (dependencies flow) order levels stepLevels" by blast
  from levels_inv_concat[OF l(2) d] l show ?thesis by blast
qed

lemma executeAsync_run:
  assumes "map_of (flows w) f = Some flow" "calculateFlowExecutionOrder flow = Inr order"
    "groupStepsByLevel (Suc (length order)) flow order = Some levels"
    "executeAsync w f m = (r, m')"
  shows "\<exists>r0 s. execute_levels w f flow levels (start_run m) = (r0, s) \<and> m' = end_run s
           \<and> (case r0 of
                 Returned u \<Rightarrow> r = Returned \<lparr>flow_results = results s, success = True\<rparr>
               | Thrown e \<Rightarrow> r = Thrown e
               | NeverSettled \<Rightarrow> r = NeverSettled)"
proof -
  obtain r0 s where st: "execute_levels w f flow levels (start_run m) = (r0, s)"
    by (cases "execute_levels w f flow levels (start_run m)")
  with assms show ?thesis by (cases r0) (auto simp: executeAsync_def)
qed

lemma executeAsync_frame:
  assumes "f \<noteq> buildFlowName w"
  shows "containers (snd (executeAsync w f m)) = containers m"
proof (cases "map_of (flows w) f")
  case None
  then show ?thesis by (simp add: executeAsync_def)
next
  case (Some flow)
  show ?thesis
  proof (cases "calculateFlowExecutionOrder flow")
    case (Inl e)
    with Some show ?thesis by (simp add: executeAsync_def)
  next
    case (Inr order)
    from executeAsync_levels[OF Inr] obtain levels where
      l: "groupStepsByLevel (Suc (length order)) flow order = Some levels" by blast
    obtain r m' where ex: "executeAsync w f m = (r, m')" by (cases "executeAsync w f m")
    from executeAsync_run[OF Some Inr l ex] obtain r0 s where
      st: "execute_levels w f flow levels (start_run m) = (r0, s)" and m': "m' = end_run s" by blast
    from execute_levels_frame[OF st assms] m' ex show ?thesis by simp
  qed
qed

subsection \<open>The synthesized build flow\<close>

lemma foldl_update_fresh:
  "distinct (map fst xs) \<Longrightarrow> fst ` set acc \<inter> fst ` set xs = {} \<Longrightarrow>
     foldl (\<lambda>a (k, v). AList.update k (g k v) a) acc xs = acc @ map (\<lambda>(k, v). (k, g k v)) xs"
proof (induct xs arbitrary: acc)
  case Nil
  then show ?case by simp
next
  case (Cons p xs)
  obtain k v where p: "p = (k, v)" by (cases p)
  from Cons.prems p have k: "k \<notin> fst ` set acc" by auto
  then have up: "AList.update k (g k v) acc = acc @ [(k, g k v)]"
    by (induct acc) auto
  from Cons.prems p have d: "distinct (map fst xs)"
    and dj: "fst ` set (acc @ [(k, g k v)]) \<inter> fst ` set xs = {}" by auto
  from Cons.hyps[OF d dj] up p show ?case by simp
qed

definition build_flow_of :: "graph \<Rightarrow> ('a, 'w) FlowDefinition" where
  "build_flow_of deps =
     \<lparr>steps = map (\<lambda>(stepName, ds).
                 (stepName, \<lparr>action = (\<lambda>container c wd. (Returns (Plain container), wd))\<rparr>)) deps,
      dependencies = deps\<rparr>"

lemma createBuildFlow_flows:
  assumes "distinct (keys (b_dependencies b))"
  shows "map_of (b_flows (createBuildFlow b)) (b_buildFlowName b)
           = Some (build_flow_of (b_dependencies b))"
proof -
  from assms have d: "distinct (map fst (b_dependencies b))" by (simp add: keys_def)
  have s1: "foldl (\<lambda>buildSteps (stepName, deps).
                AList.update stepName
                  \<lparr>action = (\<lambda>container c wd. (Returns (Plain container), wd))\<rparr> buildSteps)
              [] (b_dependencies b)
            = map (\<lambda>(stepName, ds).
                 (stepName, \<lparr>action = (\<lambda>container c wd. (Returns (Plain container), wd))\<rparr>))
                (b_dependencies b)"
    using foldl_update_fresh[OF d, of "[]"
        "\<lambda>k v. \<lparr>action = (\<lambda>container c wd. (Returns (Plain container), wd))\<rparr>"] by simp
  have s2: "foldl (\<lambda>buildDependencies (stepName, deps).
                AList.update stepName deps buildDependencies) [] (b_dependencies b)
            = b_dependencies b"
    using foldl_update_fresh[OF d, of "[]" "\<lambda>k v. v"] by simp
  show ?thesis
    unfolding createBuildFlow_def build_flow_of_def s1 s2
    by (simp add: AList.update_conv')
qed

lemma build_flow_of_simps [simp]:
  "dependencies (build_flow_of deps) = deps"
  "has_key n (steps (build_flow_of deps)) \<longleftrightarrow> n \<in> set (keys deps)"
proof -
  show "dependencies (build_flow_of deps) = deps" by (simp add: build_flow_of_def)
  have "map_of (map (\<lambda>(stepName, ds).
          (stepName, \<lparr>action = (\<lambda>container c wd. (Returns (Plain container), wd))\<rparr>)) deps) n \<noteq> None
        \<longleftrightarrow> n \<in> fst ` set deps"
    by (induct deps) auto
  then show "has_key n (steps (build_flow_of deps)) \<longleftrightarrow> n \<in> set (keys deps)"
    by (simp add: has_key_def build_flow_of_def keys_def)
qed

text \<open>What a successful \<open>build\<close> or \<open>buildAsync\<close> returns.\<close>

lemma build_Returned:
  assumes "build b wd = (Returned w, b', m0) \<or> buildAsync b wd = (Returned w, b', m0)"
    "distinct (keys (b_dependencies b))"
  shows "w = new_WorkflowInstance (createBuildFlow b)"
    and "buildFlowName w = b_buildFlowName b"
    and "wf_dependencies w = b_dependencies b"
    and "wf_steps w = b_steps b"
    and "map_of (flows w) (buildFlowName w) = Some (build_flow_of (b_dependencies b))"
    and "b' = createBuildFlow b"
proof -
  from assms(1) show w: "w = new_WorkflowInstance (createBuildFlow b)"
    by (auto simp: build_def buildAsync_def Let_def
             split: option.splits prod.splits completion.splits)
  from assms(1) show "b' = createBuildFlow b"
    by (auto simp: build_def buildAsync_def Let_def
             split: option.splits prod.splits completion.splits)
  from w show n: "buildFlowName w = b_buildFlowName b"
    and "wf_dependencies w = b_dependencies b" and "wf_steps w = b_steps b"
    by (simp_all add: new_WorkflowInstance_def createBuildFlow_def)
  from w createBuildFlow_flows[OF assms(2)] n
  show "map_of (flows w) (buildFlowName w) = Some (build_flow_of (b_dependencies b))"
    by (simp add: new_WorkflowInstance_def)
qed

lemma record_calls_hit:
  "distinct (map call_name cs) \<Longrightarrow> c \<in> set cs \<Longrightarrow>
     record_calls mp cs (call_name c) = Some (returned_value c)"
proof (induct cs arbitrary: mp)
  case Nil
  then show ?case by simp
next
  case (Cons d cs)
  show ?case
  proof (cases "c = d")
    case True
    from Cons.prems(1) have "call_name d \<notin> call_name ` set cs" by auto
    from record_calls_other[OF this] True show ?thesis by simp
  next
    case False
    with Cons.prems have c: "c \<in> set cs" and d: "distinct (map call_name cs)" by auto
    from Cons.hyps[OF d c] show ?thesis by simp
  qed
qed

section \<open>Example workflows\<close>

text \<open>
  A workflow with two steps, \<open>b\<close> depending on \<open>a\<close>, and five user flows: \<open>report\<close>, whose
  action for \<open>b\<close> reads the result of \<open>a\<close> from the context; \<open>pair\<close>, with two independent
  steps; \<open>promise\<close>, whose first action returns a promise; \<open>throwing\<close>, whose first
  action throws; and \<open>partial\<close>, where \<open>a\<close> is a flow step that was given no action
  (\<open>addFlowStep\<close> without \<open>withFlowAction\<close>) and the action for \<open>b\<close>, which depends on it,
  returns what the context has for \<open>a\<close>.
\<close>

definition report_flow :: "(nat, unit) FlowDefinition" where
  "report_flow =
     \<lparr>steps = [(''a'', \<lparr>action = (\<lambda>container c wd. (Returns (Plain (Val 10)), wd))\<rparr>),
               (''b'', \<lparr>action = (\<lambda>container c wd.
                          (Returns (Plain (case c ''a'' of Some (Val n) \<Rightarrow> Val (Suc n)
                                           | _ \<Rightarrow> Undefined)), wd))\<rparr>)],
      dependencies = [(''a'', []), (''b'', [''a''])]\<rparr>"

definition pair_flow :: "(nat, unit) FlowDefinition" where
  "pair_flow =
     \<lparr>steps = [(''a'', \<lparr>action = (\<lambda>container c wd. (Returns (Plain (Val 10)), wd))\<rparr>),
               (''b'', \<lparr>action = (\<lambda>container c wd. (Returns (Plain (Val 20)), wd))\<rparr>)],
      dependencies = [(''a'', []), (''b'', [])]\<rparr>"

definition promise_flow :: "(nat, unit) FlowDefinition" where
  "promise_flow =
     \<lparr>steps = [(''a'', \<lparr>action = (\<lambda>container c wd. (Returns (Deferred (Fulfills (Val 10))), wd))\<rparr>),
               (''b'', \<lparr>action = (\<lambda>container c wd. (Returns (Plain (Val 20)), wd))\<rparr>)],
      dependencies = [(''a'', []), (''b'', [''a''])]\<rparr>"

definition throwing_flow :: "(nat, unit) FlowDefinition" where
  "throwing_flow =
     \<lparr>steps = [(''a'', \<lparr>action = (\<lambda>container c wd. (Throws (JsError ''Flow action error'' None), wd))\<rparr>),
               (''b'', \<lparr>action = (\<lambda>container c wd. (Returns (Plain (Val 20)), wd))\<rparr>)],
      dependencies = [(''a'', []), (''b'', [''a''])]\<rparr>"

definition partial_flow :: "(nat, unit) FlowDefinition" where
  "partial_flow =
     \<lparr>steps = [(''b'', \<lparr>action = (\<lambda>container c wd. (Returns (Plain (read_prop c ''a'')), wd))\<rparr>)],
      dependencies = [(''a'', []), (''b'', [''a''])]\<rparr>"

definition example_workflow :: "(nat, unit) WorkflowInstance" where
  "example_workflow =
     \<lparr>wf_steps = [(''a'', \<lambda>inputData wd. (Returns (Plain (Val 1)), wd)),
                  (''b'', \<lambda>inputData wd. (Returns (Plain (Val 2)), wd))],
      wf_dependencies = [(''a'', []), (''b'', [''a''])],
      flows = [(''report'', report_flow), (''pair'', pair_flow), (''promise'', promise_flow),
               (''throwing'', throwing_flow), (''partial'', partial_flow)],
      buildFlowName = ''__build__''\<rparr>"

definition example_machine :: "(nat, unit) machine" where
  "example_machine =
     \<lparr>containers = [''a'' \<mapsto> Val 1, ''b'' \<mapsto> Val 2], world = (), calls = []\<rparr>"

lemmas example_defs = example_workflow_def example_machine_def report_flow_def pair_flow_def
  promise_flow_def throwing_flow_def partial_flow_def

lemma order_ab: "topologicalSort [(''a'', []), (''b'', [''a''])] = Inr [''a'', ''b'']"
  by (simp add: topologicalSort_def keys_def deps_of_def visit.simps)

lemma order_pair: "topologicalSort [(''a'', []), (''b'', [])] = Inr [''a'', ''b'']"
  by (simp add: topologicalSort_def keys_def deps_of_def visit.simps)

lemma execute_report:
  "execute example_workflow ''report'' example_machine =
     (Returned \<lparr>flow_results = [''a'' \<mapsto> Val 10, ''b'' \<mapsto> Val 11], success = True\<rparr>,
      \<lparr>containers = [''a'' \<mapsto> Val 1, ''b'' \<mapsto> Val 2], world = (),
       calls = [ActionCall ''a'' (Val 1) Map.empty (Returns (Plain (Val 10))),
                ActionCall ''b'' (Val 2) [''a'' \<mapsto> Val 10] (Returns (Plain (Val 11)))]\<rparr>)"
  by (simp add: execute_def example_defs calculateFlowExecutionOrder_def order_ab
        execute_step_def read_prop_def start_run_def end_run_def machine.defs run_state.defs)


lemma execute_throwing:
  "execute example_workflow ''throwing'' example_machine =
     (Thrown (wrap_error ''a'' (JsError ''Flow action error'' None)),
      \<lparr>containers = [''a'' \<mapsto> Val 1, ''b'' \<mapsto> Val 2], world = (),
       calls = [ActionCall ''a'' (Val 1) Map.empty (Throws (JsError ''Flow action error'' None))]\<rparr>)"
  by (simp add: execute_def example_defs calculateFlowExecutionOrder_def order_ab
        execute_step_def read_prop_def start_run_def end_run_def machine.defs run_state.defs)

lemma levels_ab:
  "groupStepsByLevel 3 \<lparr>steps = st, dependencies = [(''a'', []), (''b'', [''a''])]\<rparr> [''a'', ''b'']
     = Some [[''a''], [''b'']]"
  by (simp add: groupStepsByLevel_def deps_of_def push_step_def eval_nat_numeral)

lemma levels_pair:
  "groupStepsByLevel 3 \<lparr>steps = st, dependencies = [(''a'', []), (''b'', [])]\<rparr> [''a'', ''b'']
     = Some [[''a'', ''b'']]"
  by (simp add: groupStepsByLevel_def deps_of_def push_step_def eval_nat_numeral)

lemma executeAsync_throwing:
  "executeAsync example_workflow ''throwing'' example_machine =
     (Thrown (wrap_error ''a'' (JsError ''Flow action error'' None)),
      \<lparr>containers = [''a'' \<mapsto> Val 1, ''b'' \<mapsto> Val 2], world = (),
       calls = [ActionCall ''a'' (Val 1) Map.empty (Throws (JsError ''Flow action error'' None))]\<rparr>)"
  using levels_ab[of "steps throwing_flow"]
  by (simp add: executeAsync_def example_defs calculateFlowExecutionOrder_def order_ab
        dispatch_step_def read_prop_def start_run_def end_run_def machine.defs run_state.defs
        level_rejection_def eval_nat_numeral)

lemma executeAsync_report:
  "executeAsync example_workflow ''report'' example_machine =
     (Returned \<lparr>flow_results = [''a'' \<mapsto> Val 10, ''b'' \<mapsto> Val 11], success = True\<rparr>,
      \<lparr>containers = [''a'' \<mapsto> Val 1, ''b'' \<mapsto> Val 2], world = (),
       calls = [ActionCall ''a'' (Val 1) Map.empty (Returns (Plain (Val 10))),
                ActionCall ''b'' (Val 2) [''a'' \<mapsto> Val 10] (Returns (Plain (Val 11)))]\<rparr>)"
  using levels_ab[of "steps report_flow"]
  by (simp add: executeAsync_def example_defs calculateFlowExecutionOrder_def order_ab
        dispatch_step_def read_prop_def start_run_def end_run_def machine.defs run_state.defs
        level_rejection_def eval_nat_numeral)

lemma executeAsync_pair:
  "executeAsync example_workflow ''pair'' example_machine =
     (Returned \<lparr>flow_results = [''a'' \<mapsto> Val 10, ''b'' \<mapsto> Val 20], success = True\<rparr>,
      \<lparr>containers = [''a'' \<mapsto> Val 1, ''b'' \<mapsto> Val 2], world = (),
       calls = [ActionCall ''a'' (Val 1) Map.empty (Returns (Plain (Val 10))),
                ActionCall ''b'' (Val 2) Map.empty (Returns (Plain (Val 20)))]\<rparr>)"
  using levels_pair[of "steps pair_flow"]
  by (simp add: executeAsync_def example_defs calculateFlowExecutionOrder_def order_pair
        dispatch_step_def read_prop_def start_run_def end_run_def machine.defs run_state.defs
        level_rejection_def eval_nat_numeral)

lemma execute_partial:
  "execute example_workflow ''partial'' example_machine =
     (Returned \<lparr>flow_results = [''b'' \<mapsto> Undefined], success = True\<rparr>,
      \<lparr>containers = [''a'' \<mapsto> Val 1, ''b'' \<mapsto> Val 2], world = (),
       calls = [ActionCall ''b'' (Val 2) Map.empty (Returns (Plain Undefined))]\<rparr>)"
  by (simp add: execute_def example_defs calculateFlowExecutionOrder_def order_ab
        execute_step_def read_prop_def start_run_def end_run_def machine.defs run_state.defs)

lemma executeAsync_partial:
  "executeAsync example_workflow ''partial'' example_machine =
     (Returned \<lparr>flow_results = [''b'' \<mapsto> Undefined], success = True\<rparr>,
      \<lparr>containers = [''a'' \<mapsto> Val 1, ''b'' \<mapsto> Val 2], world = (),
       calls = [ActionCall ''b'' (Val 2) Map.empty (Returns (Plain Undefined))]\<rparr>)"
  using levels_ab[of "steps partial_flow"]
  by (simp add: executeAsync_def example_defs calculateFlowExecutionOrder_def order_ab
        dispatch_step_def read_prop_def start_run_def end_run_def machine.defs run_state.defs
        level_rejection_def eval_nat_numeral)

lemma execute_pair:
  "execute example_workflow ''pair'' example_machine =
     (Returned \<lparr>flow_results = [''a'' \<mapsto> Val 10, ''b'' \<mapsto> Val 20], success = True\<rparr>,
      \<lparr>containers = [''a'' \<mapsto> Val 1, ''b'' \<mapsto> Val 2], world = (),
       calls = [ActionCall ''a'' (Val 1) Map.empty (Returns (Plain (Val 10))),
                ActionCall ''b'' (Val 2) [''a'' \<mapsto> Val 10] (Returns (Plain (Val 20)))]\<rparr>)"
  by (simp add: execute_def example_defs calculateFlowExecutionOrder_def order_pair
        execute_step_def read_prop_def start_run_def end_run_def machine.defs run_state.defs)

section \<open>The claims about runs\<close>



text \<open>
  Claim C3. When a call of a run throws (in concurrent mode: throws, or returns a deferred
  value that is rejected), the run throws an error that wraps the cause and whose message
  names the step. In blocking mode it is the error of that call, and the call is the last
  of the run. In concurrent mode it is the error of a step of the same level (which of
  them, when several fail, is the choice of \<open>Promise.all\<close>), and no step of a later level is
  called. Either way the caller gets no results.
\<close>

theorem step_failure_aborts:
  assumes "map_of (flows w) f = Some flow" "calculateFlowExecutionOrder flow = Inr order"
  shows "(\<forall>r m' new c e.
            execute w f m = (r, m') \<and> calls m' = calls m @ new \<and> c \<in> set new
            \<and> call_outcome c = Throws e \<longrightarrow>
              r = Thrown (wrap_error (call_name c) e)
              \<and> error_message (wrap_error (call_name c) e)
                   = ''Step '' @ quoted (call_name c) @ '' failed: '' @ error_message e
              \<and> originalError (wrap_error (call_name c) e) = Some e
              \<and> (\<exists>pre post good. order = pre @ call_name c # post \<and> new = good @ [c]
                    \<and> map call_name good = filter (\<lambda>n. has_key n (steps flow)) pre))
       \<and> (\<forall>r m' new c.
            executeAsync w f m = (r, m') \<and> calls m' = calls m @ new \<and> c \<in> set new
            \<and> failing_call c \<longrightarrow>
              (\<exists>levels pre L post x cause.
                  groupStepsByLevel (Suc (length order)) flow order = Some levels
                  \<and> levels = pre @ L # post \<and> call_name c \<in> set L \<and> x \<in> set L
                  \<and> r = Thrown (wrap_error x cause)
                  \<and> error_message (wrap_error x cause)
                       = ''Step '' @ quoted x @ '' failed: '' @ error_message cause
                  \<and> originalError (wrap_error x cause) = Some cause
                  \<and> ((cause = not_a_function \<and> \<not> callable w f flow x)
                     \<or> (\<exists>c' \<in> set new. call_name c' = x \<and> failing_call c' \<and> cause_of c' = cause))
                  \<and> (\<forall>c'' \<in> set new. call_name c'' \<in> set (concat pre) \<union> set L)))"
  (is "?blocking \<and> ?concurrent")
proof (rule conjI)
 show ?blocking
 proof (intro allI impI)
  fix r m' new c e
  assume a: "execute w f m = (r, m') \<and> calls m' = calls m @ new \<and> c \<in> set new
            \<and> call_outcome c = Throws e"
  then have bad: "bad_call c" by (simp add: bad_call_def)
  from a have ex: "execute w f m = (r, m')" and cs: "calls m' = calls m @ new" and c: "c \<in> set new"
    by simp_all
  from execute_bad_call[OF assms ex cs c bad] a have
    "r = Thrown (wrap_error (call_name c) e)"
    "\<exists>pre post good. order = pre @ call_name c # post \<and> new = good @ [c]
                    \<and> map call_name good = filter (\<lambda>n. has_key n (steps flow)) pre"
    by (auto simp: sync_error_def)
  then show "r = Thrown (wrap_error (call_name c) e)
              \<and> error_message (wrap_error (call_name c) e)
                   = ''Step '' @ quoted (call_name c) @ '' failed: '' @ error_message e
              \<and> originalError (wrap_error (call_name c) e) = Some e
              \<and> (\<exists>pre post good. order = pre @ call_name c # post \<and> new = good @ [c]
                    \<and> map call_name good = filter (\<lambda>n. has_key n (steps flow)) pre)"
    by (simp add: wrap_error_def)
 qed
next
 show ?concurrent
 proof (intro allI impI)
  fix r m' new c
  assume a: "executeAsync w f m = (r, m') \<and> calls m' = calls m @ new \<and> c \<in> set new
            \<and> failing_call c"
  then have ex: "executeAsync w f m = (r, m')" and cs: "calls m' = calls m @ new"
    and c: "c \<in> set new" and fc: "failing_call c" by simp_all
  from executeAsync_levels[OF assms(2)] obtain levels where
    l: "groupStepsByLevel (Suc (length order)) flow order = Some levels" by blast
  from executeAsync_run[OF assms l ex] obtain r0 s where
    st: "execute_levels w f flow levels (start_run m) = (r0, s)" and m': "m' = end_run s"
    and r: "(case r0 of
                 Returned u \<Rightarrow> r = Returned \<lparr>flow_results = results s, success = True\<rparr>
               | Thrown e \<Rightarrow> r = Thrown e
               | NeverSettled \<Rightarrow> r = NeverSettled)" by blast
  from cs m' have cs': "calls s = calls (start_run m) @ new" by simp
  from execute_levels_failing[OF st cs' c fc] obtain e where e: "r0 = Thrown e" by blast
  with r have re: "r = Thrown e" by simp
  from execute_levels_Thrown[OF st[unfolded e] cs'] obtain pre L post newpre newL x cause where
    t: "levels = pre @ L # post" "new = newpre @ newL"
       "map call_name newpre = filter (\<lambda>n. has_key n (steps flow)) (concat pre)"
       "\<forall>c \<in> set newpre. has_value c"
       "map call_name newL = filter (callable w f flow) L"
       "x \<in> set L" "e = wrap_error x cause"
       "(cause = not_a_function \<and> has_key x (steps flow) \<and> \<not> callable w f flow x)
              \<or> (\<exists>c \<in> set newL. call_name c = x \<and> failing_call c \<and> cause_of c = cause)"
    by blast
  from t(4) fc has_value_not_failing have "c \<notin> set newpre" by blast
  with c t(2) have cl: "c \<in> set newL" by simp
  have inL: "\<And>c'. c' \<in> set newL \<Longrightarrow> call_name c' \<in> set L"
  proof -
    fix c' assume "c' \<in> set newL"
    then have "call_name c' \<in> set (map call_name newL)" by simp
    with t(5) show "call_name c' \<in> set L" by simp
  qed
  have inpre: "\<And>c'. c' \<in> set newpre \<Longrightarrow> call_name c' \<in> set (concat pre)"
  proof -
    fix c' assume "c' \<in> set newpre"
    then have "call_name c' \<in> set (map call_name newpre)" by simp
    with t(3) have "call_name c' \<in> set (filter (\<lambda>n. has_key n (steps flow)) (concat pre))" by simp
    then show "call_name c' \<in> set (concat pre)" by simp
  qed
  from t(2) inL inpre have all: "\<forall>c'' \<in> set new. call_name c'' \<in> set (concat pre) \<union> set L" by auto
  from t(8) t(2) have alt: "(cause = not_a_function \<and> \<not> callable w f flow x)
      \<or> (\<exists>c' \<in> set new. call_name c' = x \<and> failing_call c' \<and> cause_of c' = cause)" by auto
  have msg: "error_message (wrap_error x cause)
      = ''Step '' @ quoted x @ '' failed: '' @ error_message cause"
    "originalError (wrap_error x cause) = Some cause" by (simp_all add: wrap_error_def)
  from l t(1) inL[OF cl] t(6) re t(7) msg alt all
  show "\<exists>levels pre L post x cause.
                  groupStepsByLevel (Suc (length order)) flow order = Some levels
                  \<and> levels = pre @ L # post \<and> call_name c \<in> set L \<and> x \<in> set L
                  \<and> r = Thrown (wrap_error x cause)
                  \<and> error_message (wrap_error x cause)
                       = ''Step '' @ quoted x @ '' failed: '' @ error_message cause
                  \<and> originalError (wrap_error x cause) = Some cause
                  \<and> ((cause = not_a_function \<and> \<not> callable w f flow x)
                     \<or> (\<exists>c' \<in> set new. call_name c' = x \<and> failing_call c' \<and> cause_of c' = cause))
                  \<and> (\<forall>c'' \<in> set new. call_name c'' \<in> set (concat pre) \<union> set L)"
    by (intro exI[of _ levels] exI[of _ pre] exI[of _ L] exI[of _ post] exI[of _ x]
              exI[of _ cause]) simp
 qed
qed

theorem step_failure_aborts_witness:
  "map_of (flows example_workflow) ''throwing'' = Some throwing_flow
   \<and> calculateFlowExecutionOrder throwing_flow = Inr [''a'', ''b'']
   \<and> fst (execute example_workflow ''throwing'' example_machine)
       = Thrown (wrap_error ''a'' (JsError ''Flow action error'' None))
   \<and> calls (snd (execute example_workflow ''throwing'' example_machine))
       = [ActionCall ''a'' (Val 1) Map.empty (Throws (JsError ''Flow action error'' None))]
   \<and> fst (executeAsync example_workflow ''throwing'' example_machine)
       = Thrown (wrap_error ''a'' (JsError ''Flow action error'' None))
   \<and> error_message (wrap_error ''a'' (JsError ''Flow action error'' None))
       = ''Step '' @ quoted ''a'' @ '' failed: Flow action error''"
proof -
  let ?e = "JsError ''Flow action error'' None"
  let ?c = "ActionCall ''a'' (Val (1::nat)) Map.empty (Throws ?e)"
  let ?r = "fst (execute example_workflow ''throwing'' example_machine)"
  let ?m' = "snd (execute example_workflow ''throwing'' example_machine)"
  let ?ra = "fst (executeAsync example_workflow ''throwing'' example_machine)"
  let ?ma = "snd (executeAsync example_workflow ''throwing'' example_machine)"
  have fl: "map_of (flows example_workflow) ''throwing'' = Some throwing_flow"
    by (simp add: example_workflow_def)
  have ord: "calculateFlowExecutionOrder throwing_flow = Inr [''a'', ''b'']"
    by (simp add: calculateFlowExecutionOrder_def throwing_flow_def order_ab)
  have em: "calls example_machine = []" by (simp add: example_machine_def)
  have cs: "calls ?m' = calls example_machine @ [?c]" unfolding execute_throwing by (simp add: em)
  have csa: "calls ?ma = calls example_machine @ [?c]" unfolding executeAsync_throwing by (simp add: em)
  have fc: "failing_call ?c" by (simp add: failing_call_def)
  note th = step_failure_aborts[OF fl ord, of example_machine]
  from th have "execute example_workflow ''throwing'' example_machine = (?r, ?m')
      \<and> calls ?m' = calls example_machine @ [?c] \<and> ?c \<in> set [?c] \<and> call_outcome ?c = Throws ?e
      \<longrightarrow> ?r = Thrown (wrap_error (call_name ?c) ?e)
          \<and> error_message (wrap_error (call_name ?c) ?e)
               = ''Step '' @ quoted (call_name ?c) @ '' failed: '' @ error_message ?e" by blast
  with cs have b: "?r = Thrown (wrap_error ''a'' ?e)"
    "error_message (wrap_error ''a'' ?e) = ''Step '' @ quoted ''a'' @ '' failed: Flow action error''"
    by simp_all
  have a: "?ra = Thrown (wrap_error ''a'' ?e)" unfolding executeAsync_throwing by simp
  from fl ord b a cs em show ?thesis by simp
qed

text \<open>
  Claim C4. A run of any flow but the build flow, blocking or concurrent, leaves the
  container store as it was, whatever the run comes to (it returns, it throws, or it never
  settles). User code is taken not to change a container value in place.
\<close>

theorem user_flow_keeps_containers:
  assumes "f \<noteq> buildFlowName w"
  shows "containers (snd (execute w f m)) = containers m
       \<and> containers (snd (executeAsync w f m)) = containers m"
  using execute_frame[OF assms] executeAsync_frame[OF assms] by simp

theorem user_flow_keeps_containers_witness:
  "''throwing'' \<noteq> buildFlowName example_workflow
   \<and> fst (execute example_workflow ''throwing'' example_machine)
       = Thrown (wrap_error ''a'' (JsError ''Flow action error'' None))
   \<and> containers (snd (execute example_workflow ''throwing'' example_machine))
       = containers example_machine
   \<and> containers (snd (executeAsync example_workflow ''throwing'' example_machine))
       = containers example_machine"
proof -
  have n: "''throwing'' \<noteq> buildFlowName example_workflow" by (simp add: example_workflow_def)
  have "fst (execute example_workflow ''throwing'' example_machine)
       = Thrown (wrap_error ''a'' (JsError ''Flow action error'' None))"
    unfolding execute_throwing by simp
  with user_flow_keeps_containers[OF n, of example_machine] n show ?thesis by simp
qed

theorem returned_success_witness:
  "execute example_workflow ''report'' example_machine =
     (Returned \<lparr>flow_results = [''a'' \<mapsto> Val 10, ''b'' \<mapsto> Val 11], success = True\<rparr>,
      snd (execute example_workflow ''report'' example_machine))
   \<and> success \<lparr>flow_results = [''a'' \<mapsto> Val 10, ''b'' \<mapsto> Val (11::nat)], success = True\<rparr>"
proof -
  let ?r = "\<lparr>flow_results = [''a'' \<mapsto> Val 10, ''b'' \<mapsto> Val (11::nat)], success = True\<rparr>"
  have ex: "execute example_workflow ''report'' example_machine =
     (Returned ?r, snd (execute example_workflow ''report'' example_machine))"
    unfolding execute_report by simp
  from returned_success[of example_workflow "''report''" example_machine ?r
      "snd (execute example_workflow ''report'' example_machine)"] ex
  have "success ?r" by blast
  with ex show ?thesis by blast
qed

section \<open>What a call is given\<close>

lemma precedes_split:
  "precedes xs a b \<longleftrightarrow> (\<exists>ys zs. xs = ys @ zs \<and> a \<in> set ys \<and> b \<in> set zs)"
proof
  assume "precedes xs a b"
  then obtain i j where ij: "i < j" "j < length xs" "xs ! i = a" "xs ! j = b"
    unfolding precedes_def by blast
  have "xs = take j xs @ drop j xs" by simp
  moreover from ij have "a \<in> set (take j xs)"
    by (auto simp: in_set_conv_nth intro!: exI[of _ i])
  moreover from ij have "b \<in> set (drop j xs)"
    by (auto simp: in_set_conv_nth intro!: exI[of _ 0])
  ultimately show "\<exists>ys zs. xs = ys @ zs \<and> a \<in> set ys \<and> b \<in> set zs" by blast
next
  assume "\<exists>ys zs. xs = ys @ zs \<and> a \<in> set ys \<and> b \<in> set zs"
  then obtain ys zs where x: "xs = ys @ zs" "a \<in> set ys" "b \<in> set zs" by blast
  then obtain i k where ik: "i < length ys" "ys ! i = a" "k < length zs" "zs ! k = b"
    by (auto simp: in_set_conv_nth)
  with x(1) show "precedes xs a b" unfolding precedes_def
    by (intro exI[of _ i] exI[of _ "length ys + k"]) (simp add: nth_append)
qed

lemma filter_precedes:
  assumes "precedes xs a b" "P a" "P b"
  shows "precedes (filter P xs) a b"
proof -
  from assms(1) obtain ys zs where x: "xs = ys @ zs" "a \<in> set ys" "b \<in> set zs"
    unfolding precedes_split by blast
  with assms(2,3) have "filter P xs = filter P ys @ filter P zs"
    "a \<in> set (filter P ys)" "b \<in> set (filter P zs)" by simp_all
  then show ?thesis unfolding precedes_split by blast
qed

text \<open>
  The calls of a blocking run are the steps with an action of a prefix of the execution
  order, and all but the last have returned a plain value.
\<close>

lemma execute_calls_prefix:
  assumes "map_of (flows w) f = Some flow" "calculateFlowExecutionOrder flow = Inr order"
    "execute w f m = (r, m')"
  shows "\<exists>new k. calls m' = calls m @ new
           \<and> map call_name new = take k (filter (\<lambda>n. has_key n (steps flow)) order)
           \<and> (\<forall>i < length new. call_map (new ! i) =
                  (if f = buildFlowName w
                   then inputData_of (deps_of (wf_dependencies w) (call_name (new ! i)))
                          (record_calls (containers m) (take i new))
                   else record_calls Map.empty (take i new)))
           \<and> (\<forall>j. Suc j < length new \<longrightarrow> \<not> bad_call (new ! j))"
proof (cases r)
  case (Returned u)
  with assms(3) have "execute w f m = (Returned u, m')" by simp
  from execute_Returned[OF assms(1,2) this] obtain new where n:
    "calls m' = calls m @ new"
    "map call_name new = filter (\<lambda>n. has_key n (steps flow)) order"
    "\<forall>c \<in> set new. \<not> bad_call c \<and> (is_StepCall c \<longleftrightarrow> f = buildFlowName w)"
    "\<forall>i < length new. call_map (new ! i) =
                  (if f = buildFlowName w
                   then inputData_of (deps_of (wf_dependencies w) (call_name (new ! i)))
                          (record_calls (containers m) (take i new))
                   else record_calls Map.empty (take i new))" by blast
  from n(2) have "map call_name new
      = take (length order) (filter (\<lambda>n. has_key n (steps flow)) order)" by simp
  moreover from n(3) have "\<forall>j. Suc j < length new \<longrightarrow> \<not> bad_call (new ! j)" by simp
  ultimately show ?thesis using n(1,4) by blast
next
  case (Thrown e)
  with assms(3) have "execute w f m = (Thrown e, m')" by simp
  from execute_Thrown[OF assms(1,2) this] obtain pre x post good where g:
    "order = pre @ x # post"
    "map call_name good = filter (\<lambda>n. has_key n (steps flow)) pre"
    "\<forall>c \<in> set good. \<not> bad_call c"
    "\<forall>i < length good. call_map (good ! i) =
                  (if f = buildFlowName w
                   then inputData_of (deps_of (wf_dependencies w) (call_name (good ! i)))
                          (record_calls (containers m) (take i good))
                   else record_calls Map.empty (take i good))"
    and alt: "(calls m' = calls m @ good \<and> e = wrap_error x not_a_function)
              \<or> (\<exists>c. calls m' = calls m @ good @ [c] \<and> call_name c = x \<and> bad_call c
                     \<and> e = sync_error c \<and> (is_StepCall c \<longleftrightarrow> f = buildFlowName w)
                     \<and> has_key x (steps flow)
                     \<and> call_map c = (if f = buildFlowName w
                           then inputData_of (deps_of (wf_dependencies w) x)
                                  (record_calls (containers m) good)
                           else record_calls Map.empty good))" by blast
  let ?P = "\<lambda>n. has_key n (steps flow)"
  from g(2) have lg: "length good = length (filter ?P pre)" by (metis length_map)
  from alt show ?thesis
  proof
    assume a: "calls m' = calls m @ good \<and> e = wrap_error x not_a_function"
    from g(1,2) have "map call_name good = take (length good) (filter ?P order)"
      by (simp add: lg)
    moreover from g(3) have "\<forall>j. Suc j < length good \<longrightarrow> \<not> bad_call (good ! j)" by simp
    ultimately show ?thesis using a g(4) by blast
  next
    assume "\<exists>c. calls m' = calls m @ good @ [c] \<and> call_name c = x \<and> bad_call c
                     \<and> e = sync_error c \<and> (is_StepCall c \<longleftrightarrow> f = buildFlowName w)
                     \<and> has_key x (steps flow)
                     \<and> call_map c = (if f = buildFlowName w
                           then inputData_of (deps_of (wf_dependencies w) x)
                                  (record_calls (containers m) good)
                           else record_calls Map.empty good)"
    then obtain c where c: "calls m' = calls m @ good @ [c]" "call_name c = x"
      "has_key x (steps flow)"
      "call_map c = (if f = buildFlowName w
                           then inputData_of (deps_of (wf_dependencies w) x)
                                  (record_calls (containers m) good)
                           else record_calls Map.empty good)" by blast
    let ?new = "good @ [c]"
    from g(1,2) c(2,3) have "map call_name ?new = take (Suc (length good)) (filter ?P order)"
      by (simp add: lg)
    moreover have "\<forall>i < length ?new. call_map (?new ! i) =
                  (if f = buildFlowName w
                   then inputData_of (deps_of (wf_dependencies w) (call_name (?new ! i)))
                          (record_calls (containers m) (take i ?new))
                   else record_calls Map.empty (take i ?new))"
    proof (intro allI impI)
      fix i assume "i < length ?new"
      then consider "i < length good" | "i = length good" by fastforce
      then show "call_map (?new ! i) =
                  (if f = buildFlowName w
                   then inputData_of (deps_of (wf_dependencies w) (call_name (?new ! i)))
                          (record_calls (containers m) (take i ?new))
                   else record_calls Map.empty (take i ?new))"
      proof cases
        case 1
        with g(4) show ?thesis by (simp add: nth_append)
      next
        case 2
        with c(2,4) show ?thesis by simp
      qed
    qed
    moreover from g(3) have "\<forall>j. Suc j < length ?new \<longrightarrow> \<not> bad_call (?new ! j)"
      by (simp add: nth_append)
    ultimately show ?thesis using c(1) by blast
  qed
next
  case NeverSettled
  with assms(3) show ?thesis using execute_not_NeverSettled by blast
qed

text \<open>
  In a blocking run, when a step is called, each of its flow dependencies that has an
  action has been called before, has returned a plain value, and that value is what the
  records of the calls so far hold for it.
\<close>

lemma execute_context:
  assumes fl: "map_of (flows w) f = Some flow"
    and ord: "calculateFlowExecutionOrder flow = Inr order"
    and ex: "execute w f m = (r, m')" and cs: "calls m' = calls m @ new"
    and i: "i < length new"
  shows "call_map (new ! i) =
           (if f = buildFlowName w
            then inputData_of (deps_of (wf_dependencies w) (call_name (new ! i)))
                   (record_calls (containers m) (take i new))
            else record_calls Map.empty (take i new))"
    and "\<forall>j < i. \<not> bad_call (new ! j)"
    and "\<forall>j < i. record_calls mp (take i new) (call_name (new ! j)) = Some (returned_value (new ! j))"
    and "d \<in> set (deps_of (dependencies flow) (call_name (new ! i))) \<Longrightarrow> has_key d (steps flow)
           \<Longrightarrow> \<exists>j < i. call_name (new ! j) = d"
proof -
  let ?P = "\<lambda>n. has_key n (steps flow)"
  let ?N = "filter ?P order"
  from execute_calls_prefix[OF fl ord ex] cs obtain k where
    names: "map call_name new = take k ?N"
    and maps: "\<forall>i < length new. call_map (new ! i) =
                  (if f = buildFlowName w
                   then inputData_of (deps_of (wf_dependencies w) (call_name (new ! i)))
                          (record_calls (containers m) (take i new))
                   else record_calls Map.empty (take i new))"
    and good: "\<forall>j. Suc j < length new \<longrightarrow> \<not> bad_call (new ! j)" by auto
  from maps i show "call_map (new ! i) =
           (if f = buildFlowName w
            then inputData_of (deps_of (wf_dependencies w) (call_name (new ! i)))
                   (record_calls (containers m) (take i new))
            else record_calls Map.empty (take i new))" by blast
  from good i show "\<forall>j < i. \<not> bad_call (new ! j)" by auto
  from ord have tp: "topo (dependencies flow) order" and dist: "distinct order"
    using topologicalSort_Inr(1,2) by (simp_all add: calculateFlowExecutionOrder_def)
  from dist have dN: "distinct ?N" by simp
  have "map call_name (take i new) = take i (take k ?N)" by (simp add: names take_map[symmetric])
  with dN have dt: "distinct (map call_name (take i new))" by simp
  show "\<forall>j < i. record_calls mp (take i new) (call_name (new ! j)) = Some (returned_value (new ! j))"
  proof (intro allI impI)
    fix j assume "j < i"
    with i have "new ! j \<in> set (take i new)"
      by (auto simp: in_set_conv_nth intro!: exI[of _ j])
    from record_calls_hit[OF dt this]
    show "record_calls mp (take i new) (call_name (new ! j)) = Some (returned_value (new ! j))" .
  qed
  assume d: "d \<in> set (deps_of (dependencies flow) (call_name (new ! i)))"
    and pd: "has_key d (steps flow)"
  from names have len: "length new = length (take k ?N)" by (metis length_map)
  with i have ik: "i < k" and iN: "i < length ?N" by simp_all
  have nm: "call_name (new ! j) = ?N ! j" if "j \<le> i" for j
  proof -
    from that i have "j < length new" by simp
    then have "call_name (new ! j) = map call_name new ! j" by simp
    also from that ik have "\<dots> = ?N ! j" by (simp add: names)
    finally show ?thesis .
  qed
  let ?x = "call_name (new ! i)"
  from nm[of i] have x: "?x = ?N ! i" by simp
  with iN have "?x \<in> set ?N" by (metis nth_mem)
  then have xo: "?x \<in> set order" and px: "?P ?x" by simp_all
  from d have "(?x, d) \<in> (dep_rel (dependencies flow))\<^sup>+" by (auto simp: dep_rel_def)
  from topo_precedes[OF tp this xo] have "precedes order d ?x" .
  from filter_precedes[of order d ?x ?P, OF this pd px] obtain j' i' where
    ji: "j' < i'" "i' < length ?N" "?N ! j' = d" "?N ! i' = ?x"
    unfolding precedes_def by blast
  from ji(4) x have "?N ! i' = ?N ! i" by simp
  with dN ji(2) iN have "i' = i" by (simp add: nth_eq_iff_index_eq)
  with ji(1) have j: "j' < i" by simp
  from nm[of j'] j ji(3) have cn: "call_name (new ! j') = d" by simp
  with j show "\<exists>j < i. call_name (new ! j) = d" by blast
qed

lemma good_call_value:
  assumes "\<not> bad_call c"
  shows "call_outcome c = Returns (Plain (returned_value c))"
proof (cases "call_outcome c")
  case (Returns r)
  with assms show ?thesis by (cases r) (simp_all add: bad_call_def returned_value_def)
next
  case (Throws e)
  with assms show ?thesis by (simp add: bad_call_def)
qed

text \<open>
  In a concurrent run of a user flow, the context a step is given holds the values of the
  calls of the earlier levels, and nothing else; each flow dependency of the step that has
  an action is among them.
\<close>

lemma executeAsync_context:
  assumes fl: "map_of (flows w) f = Some flow"
    and ord: "calculateFlowExecutionOrder flow = Inr order"
    and nb: "f \<noteq> buildFlowName w"
    and ex: "executeAsync w f m = (r, m')" and cs: "calls m' = calls m @ new"
    and c: "c \<in> set new"
  shows "\<exists>levels j. groupStepsByLevel (Suc (length order)) flow order = Some levels
           \<and> j < length levels \<and> call_name c \<in> set (levels ! j)
           \<and> call_map c = record_async Map.empty
                 (filter (\<lambda>c'. call_name c' \<in> set (concat (take j levels))) new)
           \<and> (\<forall>d \<in> set (deps_of (dependencies flow) (call_name c)). has_key d (steps flow)
                 \<longrightarrow> (\<exists>c' \<in> set new. \<exists>v. call_name c' = d \<and> async_value c' = Some v
                        \<and> call_map c d = Some v))"
proof -
  from executeAsync_levels[OF ord] obtain levels stepLevels where
    lv: "groupStepsByLevel (Suc (length order)) flow order = Some levels"
    and inv: "levels_inv (dependencies flow) order levels stepLevels"
    and dl: "distinct (concat levels)" and sl: "set (concat levels) = set order" by blast
  from executeAsync_run[OF fl ord lv ex] obtain r0 s where
    run: "execute_levels w f flow levels (start_run m) = (r0, s)" and m': "m' = end_run s"
    by blast
  from cs m' have cs': "calls s = calls (start_run m) @ new" by simp
  from execute_levels_ctx[OF run cs' nb dl] c obtain j where j: "j < length levels"
    "call_name c \<in> set (levels ! j)"
    "call_map c = record_async (ctx (start_run m))
                 (filter (\<lambda>c'. call_name c' \<in> set (concat (take j levels))) new)"
    "\<forall>x \<in> set (concat (take j levels)). has_key x (steps flow)
                 \<longrightarrow> (\<exists>c' \<in> set new. call_name c' = x \<and> has_value c')" by blast
  let ?Q = "\<lambda>c'. call_name c' \<in> set (concat (take j levels))"
  let ?x = "call_name c"
  from j(3) have cm: "call_map c = record_async Map.empty (filter ?Q new)" by simp
  from execute_levels_names[OF run cs'] obtain k where
    "map call_name new = filter (callable w f flow) (concat (take k levels))" by blast
  moreover from dl have "distinct (concat (take k levels))"
    by (metis append_take_drop_id concat_append distinct_append)
  ultimately have dn: "distinct (map call_name new)" by simp
  then have dq: "distinct (map call_name (filter ?Q new))" by (simp add: distinct_map_filter)
  from j(1,2) have "?x \<in> set (concat levels)" by (auto intro: nth_mem)
  with sl have xo: "?x \<in> set order" by simp
  from j(2) levels_inv_nth[OF inv j(1)] have "stepLevels ?x = Some j" by simp
  with levels_inv_level_of(1)[OF inv xo] have lx: "level_of levels ?x = j" by simp
  have "\<exists>c' \<in> set new. \<exists>v. call_name c' = d \<and> async_value c' = Some v \<and> call_map c d = Some v"
    if d: "d \<in> set (deps_of (dependencies flow) ?x)" and pd: "has_key d (steps flow)" for d
  proof -
    from d have "(?x, d) \<in> (dep_rel (dependencies flow))\<^sup>+" by (auto simp: dep_rel_def)
    from levels_inv_edge[OF inv xo this] lx have dm: "d \<in> set order"
      and ld: "level_of levels d < j" by simp_all
    from ld j(1) have ldl: "level_of levels d < length levels" by simp
    from levels_inv_level_of(1)[OF inv dm] levels_inv_nth[OF inv ldl] dm
    have "d \<in> set (levels ! level_of levels d)" by simp
    with ld ldl have "d \<in> set (take j levels ! level_of levels d)" by simp
    moreover from ld ldl have "take j levels ! level_of levels d \<in> set (take j levels)"
      by (intro nth_mem) simp
    ultimately have dc: "d \<in> set (concat (take j levels))" by auto
    with j(4) pd obtain c' where c': "c' \<in> set new" "call_name c' = d" "has_value c'" by blast
    from c'(3) obtain v where v: "async_value c' = Some v" by (auto simp: has_value_def)
    from c'(1,2) dc have "c' \<in> set (filter ?Q new)" by simp
    from record_where_hit[OF dq this, of has_value Map.empty] c'(2,3) cm v
    have "call_map c d = Some v" by (simp add: record_async_def)
    with c'(1,2) v show ?thesis by blast
  qed
  with lv j(1,2) cm show ?thesis by blast
qed

section \<open>Context propagation\<close>

text \<open>
  Claim C6 says that the context given to a step holds the result of every step that has
  completed earlier in the run, and of every declared flow dependency. Two runs where it
  does not. In the flow \<open>pair\<close> the two steps have no dependencies, so a concurrent run
  starts both in one level: the action of \<open>a\<close> has returned its result, a plain value,
  before the action of \<open>b\<close> is called, and the context given to \<open>b\<close> does not have it (the
  results of a level are put in the context after the whole level has settled). In the
  flow \<open>partial\<close> the step \<open>b\<close> depends on the flow step \<open>a\<close>, which has no action and is
  skipped: the context given to \<open>b\<close> has nothing for \<open>a\<close>, in either mode.
\<close>

theorem same_level_result_not_in_context:
  "map_of (flows example_workflow) ''pair'' = Some pair_flow
   \<and> calls (snd (executeAsync example_workflow ''pair'' example_machine))
       = [ActionCall ''a'' (Val 1) Map.empty (Returns (Plain (Val 10))),
          ActionCall ''b'' (Val 2) Map.empty (Returns (Plain (Val 20)))]
   \<and> call_map (calls (snd (executeAsync example_workflow ''pair'' example_machine)) ! 1) ''a'' = None
   \<and> map_of (flows example_workflow) ''partial'' = Some partial_flow
   \<and> ''a'' \<in> set (deps_of (dependencies partial_flow) ''b'')
   \<and> calls (snd (execute example_workflow ''partial'' example_machine))
       = [ActionCall ''b'' (Val 2) Map.empty (Returns (Plain Undefined))]
   \<and> calls (snd (executeAsync example_workflow ''partial'' example_machine))
       = [ActionCall ''b'' (Val 2) Map.empty (Returns (Plain Undefined))]"
  unfolding executeAsync_pair execute_partial executeAsync_partial
  by (simp add: example_workflow_def partial_flow_def deps_of_def)

text \<open>
  Claim C6, amended. In a run of a flow other than the build flow (the implementations of
  the build flow are given \<open>inputData\<close> and no context), whose step names are none of
  \<open>Object.prototype\<close>:

  \<^item> in blocking mode, the context given to a call holds exactly the results of the calls
    made before it in the run, each the plain value that call returned; every flow
    dependency of the step that has an action in the flow is among these calls;

  \<^item> in concurrent mode, the context given to a call of a step of level \<open>j\<close> holds exactly
    the values of the calls of the levels before \<open>j\<close>, and nothing for any other name;
    every flow dependency of the step that has an action in the flow has such a call,
    and the context holds the value it returned or was fulfilled with.

  The context is the object the engine fills; user code is taken not to assign to it.
\<close>

theorem context_propagation:
  assumes "map_of (flows w) f = Some flow" "calculateFlowExecutionOrder flow = Inr order"
    "f \<noteq> buildFlowName w" "plain_names (dependencies flow)"
  shows "(\<forall>r m' new i.
            execute w f m = (r, m') \<and> calls m' = calls m @ new \<and> i < length new \<longrightarrow>
              call_map (new ! i) = record_calls Map.empty (take i new)
              \<and> (\<forall>j < i. \<exists>v. call_outcome (new ! j) = Returns (Plain v)
                       \<and> call_map (new ! i) (call_name (new ! j)) = Some v)
              \<and> (\<forall>d \<in> set (deps_of (dependencies flow) (call_name (new ! i))).
                    has_key d (steps flow) \<longrightarrow> (\<exists>j < i. call_name (new ! j) = d)))
       \<and> (\<forall>r m' new c.
            executeAsync w f m = (r, m') \<and> calls m' = calls m @ new \<and> c \<in> set new \<longrightarrow>
              (\<exists>levels j.
                  groupStepsByLevel (Suc (length order)) flow order = Some levels
                  \<and> j < length levels \<and> call_name c \<in> set (levels ! j)
                  \<and> call_map c = record_async Map.empty
                        (filter (\<lambda>c'. call_name c' \<in> set (concat (take j levels))) new)
                  \<and> (\<forall>k. k \<notin> set (concat (take j levels)) \<longrightarrow> call_map c k = None)
                  \<and> (\<forall>d \<in> set (deps_of (dependencies flow) (call_name c)).
                        has_key d (steps flow) \<longrightarrow>
                          (\<exists>c' \<in> set new. \<exists>v. call_name c' = d \<and> async_value c' = Some v
                               \<and> call_map c d = Some v))))"
  (is "?blocking \<and> ?concurrent")
proof (rule conjI)
 show ?blocking
 proof (intro allI impI)
  fix r m' new i
  assume a: "execute w f m = (r, m') \<and> calls m' = calls m @ new \<and> i < length new"
  then have ex: "execute w f m = (r, m')" and cs: "calls m' = calls m @ new"
    and i: "i < length new" by simp_all
  note ec = execute_context[OF assms(1,2) ex cs i]
  from ec(1) assms(3) have cm: "call_map (new ! i) = record_calls Map.empty (take i new)"
    by simp
  have prev: "\<forall>j < i. \<exists>v. call_outcome (new ! j) = Returns (Plain v)
                       \<and> call_map (new ! i) (call_name (new ! j)) = Some v"
  proof (intro allI impI)
    fix j assume j: "j < i"
    with ec(2) have "\<not> bad_call (new ! j)" by blast
    from good_call_value[OF this]
    have "call_outcome (new ! j) = Returns (Plain (returned_value (new ! j)))" .
    moreover from ec(3)[of Map.empty] j cm
    have "call_map (new ! i) (call_name (new ! j)) = Some (returned_value (new ! j))" by simp
    ultimately show "\<exists>v. call_outcome (new ! j) = Returns (Plain v)
                       \<and> call_map (new ! i) (call_name (new ! j)) = Some v" by blast
  qed
  have deps: "\<forall>d \<in> set (deps_of (dependencies flow) (call_name (new ! i))).
                    has_key d (steps flow) \<longrightarrow> (\<exists>j < i. call_name (new ! j) = d)"
    using ec(4) by blast
  from cm prev deps
  show "call_map (new ! i) = record_calls Map.empty (take i new)
              \<and> (\<forall>j < i. \<exists>v. call_outcome (new ! j) = Returns (Plain v)
                       \<and> call_map (new ! i) (call_name (new ! j)) = Some v)
              \<and> (\<forall>d \<in> set (deps_of (dependencies flow) (call_name (new ! i))).
                    has_key d (steps flow) \<longrightarrow> (\<exists>j < i. call_name (new ! j) = d))" by blast
 qed
next
 show ?concurrent
 proof (intro allI impI)
  fix r m' new c
  assume a: "executeAsync w f m = (r, m') \<and> calls m' = calls m @ new \<and> c \<in> set new"
  then have ex: "executeAsync w f m = (r, m')" and cs: "calls m' = calls m @ new"
    and c: "c \<in> set new" by simp_all
  from executeAsync_context[OF assms(1,2,3) ex cs c] obtain levels j where l:
    "groupStepsByLevel (Suc (length order)) flow order = Some levels"
    "j < length levels" "call_name c \<in> set (levels ! j)"
    "call_map c = record_async Map.empty
                        (filter (\<lambda>c'. call_name c' \<in> set (concat (take j levels))) new)"
    "\<forall>d \<in> set (deps_of (dependencies flow) (call_name c)). has_key d (steps flow)
         \<longrightarrow> (\<exists>c' \<in> set new. \<exists>v. call_name c' = d \<and> async_value c' = Some v
                \<and> call_map c d = Some v)" by blast
  have none: "\<forall>k. k \<notin> set (concat (take j levels)) \<longrightarrow> call_map c k = None"
  proof (intro allI impI)
    fix k assume "k \<notin> set (concat (take j levels))"
    then have "k \<notin> call_name ` set (filter (\<lambda>c'. call_name c' \<in> set (concat (take j levels))) new)"
      by auto
    from record_where_other[OF this, of has_value Map.empty] l(4)
    show "call_map c k = None" by (simp add: record_async_def)
  qed
  from l none
  show "\<exists>levels j.
                  groupStepsByLevel (Suc (length order)) flow order = Some levels
                  \<and> j < length levels \<and> call_name c \<in> set (levels ! j)
                  \<and> call_map c = record_async Map.empty
                        (filter (\<lambda>c'. call_name c' \<in> set (concat (take j levels))) new)
                  \<and> (\<forall>k. k \<notin> set (concat (take j levels)) \<longrightarrow> call_map c k = None)
                  \<and> (\<forall>d \<in> set (deps_of (dependencies flow) (call_name c)).
                        has_key d (steps flow) \<longrightarrow>
                          (\<exists>c' \<in> set new. \<exists>v. call_name c' = d \<and> async_value c' = Some v
                               \<and> call_map c d = Some v))" by blast
 qed
qed

theorem context_propagation_witness:
  "map_of (flows example_workflow) ''report'' = Some report_flow
   \<and> calculateFlowExecutionOrder report_flow = Inr [''a'', ''b'']
   \<and> ''report'' \<noteq> buildFlowName example_workflow
   \<and> plain_names (dependencies report_flow)
   \<and> calls (snd (execute example_workflow ''report'' example_machine))
       = [ActionCall ''a'' (Val 1) Map.empty (Returns (Plain (Val 10))),
          ActionCall ''b'' (Val 2) [''a'' \<mapsto> Val 10] (Returns (Plain (Val 11)))]
   \<and> call_map (calls (snd (execute example_workflow ''report'' example_machine)) ! 1) ''a''
       = Some (Val 10)
   \<and> call_map (calls (snd (executeAsync example_workflow ''report'' example_machine)) ! 1) ''a''
       = Some (Val 10)"
proof -
  let ?ca = "ActionCall ''a'' (Val 1) Map.empty (Returns (Plain (Val (10::nat))))"
  let ?cb = "ActionCall ''b'' (Val 2) [''a'' \<mapsto> Val 10] (Returns (Plain (Val (11::nat))))"
  let ?m' = "snd (execute example_workflow ''report'' example_machine)"
  let ?n' = "snd (executeAsync example_workflow ''report'' example_machine)"
  have fl: "map_of (flows example_workflow) ''report'' = Some report_flow"
    by (simp add: example_workflow_def)
  have ord: "calculateFlowExecutionOrder report_flow = Inr [''a'', ''b'']"
    by (simp add: calculateFlowExecutionOrder_def report_flow_def order_ab)
  have nb: "''report'' \<noteq> buildFlowName example_workflow" by (simp add: example_workflow_def)
  have pn: "plain_names (dependencies report_flow)"
    by (simp add: report_flow_def plain_names_def graph_names_def Object_prototype_def)
  have ex: "execute example_workflow ''report'' example_machine
      = (fst (execute example_workflow ''report'' example_machine), ?m')" by simp
  have cs: "calls ?m' = calls example_machine @ [?ca, ?cb]"
    unfolding execute_report by (simp add: example_machine_def)
  have exa: "executeAsync example_workflow ''report'' example_machine
      = (fst (executeAsync example_workflow ''report'' example_machine), ?n')" by simp
  have csa: "calls ?n' = calls example_machine @ [?ca, ?cb]"
    unfolding executeAsync_report by (simp add: example_machine_def)
  note t = context_propagation[OF fl ord nb pn, of example_machine]
  have hb: "execute example_workflow ''report'' example_machine
        = (fst (execute example_workflow ''report'' example_machine), ?m')
      \<and> calls ?m' = calls example_machine @ [?ca, ?cb] \<and> 1 < length [?ca, ?cb]"
    using ex cs by simp
  from t[THEN conjunct1, rule_format, OF hb, THEN conjunct2, THEN conjunct1]
  have "\<forall>j < 1. \<exists>v. call_outcome ([?ca, ?cb] ! j) = Returns (Plain v)
                       \<and> call_map ([?ca, ?cb] ! 1) (call_name ([?ca, ?cb] ! j)) = Some v" .
  then have b: "call_map ?cb ''a'' = Some (Val 10)" by simp
  have hc: "executeAsync example_workflow ''report'' example_machine
        = (fst (executeAsync example_workflow ''report'' example_machine), ?n')
      \<and> calls ?n' = calls example_machine @ [?ca, ?cb] \<and> ?cb \<in> set [?ca, ?cb]"
    using exa csa by simp
  from t[THEN conjunct2, rule_format, OF hc] obtain levels j where
    "\<forall>d \<in> set (deps_of (dependencies report_flow) (call_name ?cb)).
        has_key d (steps report_flow) \<longrightarrow>
          (\<exists>c' \<in> set [?ca, ?cb]. \<exists>v. call_name c' = d \<and> async_value c' = Some v
               \<and> call_map ?cb d = Some v)" by blast
  then have c: "call_map ?cb ''a'' = Some (Val 10)"
    by (simp add: report_flow_def deps_of_def has_key_def)
  from fl ord nb pn cs csa b c show ?thesis by (simp add: example_machine_def)
qed

section \<open>Re-running the build flow\<close>

lemma inputData_of_hit:
  "d \<in> set ds \<Longrightarrow> inputData_of ds store d = Some (read_prop store d)"
  unfolding inputData_of_def by (induct ds rule: rev_induct) auto

text \<open>
  The test of \<open>refresh\<close>: one step without dependencies whose implementation increments a
  counter it closes over and returns the new count. The counter is the state of the user
  code; the payload of a value is the count.
\<close>

definition counter_builder :: "(nat, nat) WorkflowBuilder" where
  "counter_builder =
     \<lparr>b_steps = [(''refreshTest'', \<lambda>inputData counter. (Returns (Plain (Val (Suc counter))), Suc counter))],
      b_dependencies = [(''refreshTest'', [])],
      b_flows = [],
      b_buildFlowName = ''__build__''\<rparr>"

definition counter_workflow :: "(nat, nat) WorkflowInstance" where
  "counter_workflow = new_WorkflowInstance (createBuildFlow counter_builder)"

lemma counter_builder_api:
  "map_sum id (withImplementation
       (\<lambda>inputData counter. (Returns (Plain (Val (Suc counter))), Suc counter)))
     (addStepWithoutDependencies ''refreshTest'' new_WorkflowBuilder) = Inr counter_builder"
  by (simp add: addStepWithoutDependencies_def new_WorkflowBuilder_def withImplementation_def
        registerImplementation_def counter_builder_def in_object_def has_key_def
        Object_prototype_def)

lemma order_counter: "topologicalSort [(''refreshTest'', [])] = Inr [''refreshTest'']"
  by (simp add: topologicalSort_def keys_def deps_of_def visit.simps)

lemma build_counter:
  "build counter_builder 0 =
     (Returned counter_workflow, createBuildFlow counter_builder,
      \<lparr>containers = [''refreshTest'' \<mapsto> Val 1], world = 1,
       calls = [StepCall ''refreshTest'' Map.empty (Returns (Plain (Val 1)))]\<rparr>)"
  by (simp add: build_def checkForCircularDependencies_def hasCircularDependency_def
        hasCycle.simps keys_def deps_of_def validateFlows_def counter_workflow_def
        createBuildFlow_def new_WorkflowInstance_def counter_builder_def fresh_machine_def
        execute_def calculateFlowExecutionOrder_def order_counter execute_step_def
        inputData_of_def start_run_def end_run_def machine.defs run_state.defs)

lemma refresh_counter:
  "refresh counter_workflow
     \<lparr>containers = [''refreshTest'' \<mapsto> Val 1], world = 1,
      calls = [StepCall ''refreshTest'' Map.empty (Returns (Plain (Val 1)))]\<rparr> =
     (Returned (),
      \<lparr>containers = [''refreshTest'' \<mapsto> Val 2], world = 2,
       calls = [StepCall ''refreshTest'' Map.empty (Returns (Plain (Val 1))),
                StepCall ''refreshTest'' Map.empty (Returns (Plain (Val 2)))]\<rparr>)"
  by (simp add: refresh_def counter_workflow_def
        createBuildFlow_def new_WorkflowInstance_def counter_builder_def
        execute_def calculateFlowExecutionOrder_def order_counter execute_step_def
        inputData_of_def deps_of_def start_run_def end_run_def machine.defs run_state.defs
        eval_nat_numeral)

lemma plain_counter_builder: "plain_builder counter_builder"
  by (simp add: plain_builder_def counter_builder_def plain_names_def graph_names_def
        Object_prototype_def)

lemma refresh_Returned:
  assumes "refresh w m = (Returned u, m')"
  shows "\<exists>r. execute w (buildFlowName w) m = (Returned r, m')"
proof -
  obtain r0 m0 where e: "execute w (buildFlowName w) m = (r0, m0)"
    by (cases "execute w (buildFlowName w) m")
  with assms show ?thesis by (cases r0) (simp_all add: refresh_def)
qed

lemma execute_Returned_order:
  assumes "map_of (flows w) f = Some flow" "execute w f m = (Returned r, m')"
  shows "\<exists>order. calculateFlowExecutionOrder flow = Inr order"
proof (cases "calculateFlowExecutionOrder flow")
  case (Inl e)
  with assms show ?thesis by (simp add: execute_def)
next
  case (Inr order)
  then show ?thesis by blast
qed

text \<open>
  A run of the build flow that returns has called the implementation of every step of the
  base graph, in the execution order, each with the fresh values of its dependencies, and
  has put what each call returned in the container store.
\<close>

lemma build_flow_run:
  assumes fl: "map_of (flows w) (buildFlowName w) = Some (build_flow_of (wf_dependencies w))"
    and ex: "execute w (buildFlowName w) m = (Returned r, m')"
  shows "\<exists>order new. topologicalSort (wf_dependencies w) = Inr order
           \<and> calls m' = calls m @ new
           \<and> map call_name new = filter (\<lambda>n. n \<in> set (keys (wf_dependencies w))) order
           \<and> set (keys (wf_dependencies w)) \<subseteq> call_name ` set new
           \<and> (\<forall>i < length new. is_StepCall (new ! i)
                 \<and> (\<exists>v. call_outcome (new ! i) = Returns (Plain v)
                        \<and> containers m' (call_name (new ! i)) = Some v)
                 \<and> (\<forall>d \<in> set (deps_of (wf_dependencies w) (call_name (new ! i))).
                       d \<in> set (keys (wf_dependencies w)) \<longrightarrow>
                         (\<exists>j < i. \<exists>v. call_name (new ! j) = d
                              \<and> call_outcome (new ! j) = Returns (Plain v)
                              \<and> call_map (new ! i) d = Some v)))"
proof -
  let ?g = "wf_dependencies w"
  let ?flow = "build_flow_of ?g :: ('a, 'b) FlowDefinition"
  let ?f = "buildFlowName w"
  from execute_Returned_order[OF fl ex] obtain order where
    ord: "calculateFlowExecutionOrder ?flow = Inr order" by blast
  then have ts: "topologicalSort ?g = Inr order" by (simp add: calculateFlowExecutionOrder_def)
  from execute_Returned[OF fl ord ex] obtain new where n:
    "calls m' = calls m @ new"
    "map call_name new = filter (\<lambda>n. has_key n (steps ?flow)) order"
    "\<forall>c \<in> set new. \<not> bad_call c \<and> (is_StepCall c \<longleftrightarrow> ?f = buildFlowName w)"
    "containers m' = (if ?f = buildFlowName w then record_calls (containers m) new
                               else containers m)" by blast
  from n(2) have names: "map call_name new = filter (\<lambda>n. n \<in> set (keys ?g)) order" by simp
  from topologicalSort_Inr(2,3)[OF ts] have dist: "distinct order"
    and ks: "set (keys ?g) \<subseteq> set order" by simp_all
  from names dist have dn: "distinct (map call_name new)" by simp
  have "set (map call_name new) = set (filter (\<lambda>n. n \<in> set (keys ?g)) order)"
    by (simp only: names)
  with ks have all: "set (keys ?g) \<subseteq> call_name ` set new" by auto
  from n(4) have store: "containers m' = record_calls (containers m) new" by simp
  have each: "is_StepCall (new ! i)
                 \<and> (\<exists>v. call_outcome (new ! i) = Returns (Plain v)
                        \<and> containers m' (call_name (new ! i)) = Some v)
                 \<and> (\<forall>d \<in> set (deps_of ?g (call_name (new ! i))).
                       d \<in> set (keys ?g) \<longrightarrow>
                         (\<exists>j < i. \<exists>v. call_name (new ! j) = d
                              \<and> call_outcome (new ! j) = Returns (Plain v)
                              \<and> call_map (new ! i) d = Some v))" if i: "i < length new" for i
  proof -
    from i have mem: "new ! i \<in> set new" by simp
    with n(3) have sc: "is_StepCall (new ! i)" and good: "\<not> bad_call (new ! i)" by simp_all
    from record_calls_hit[OF dn mem, of "containers m"] store
    have "containers m' (call_name (new ! i)) = Some (returned_value (new ! i))" by simp
    with good_call_value[OF good]
    have val: "\<exists>v. call_outcome (new ! i) = Returns (Plain v)
                        \<and> containers m' (call_name (new ! i)) = Some v" by blast
    note ec = execute_context[OF fl ord ex n(1) i]
    from ec(1) have cm: "call_map (new ! i) =
        inputData_of (deps_of ?g (call_name (new ! i)))
          (record_calls (containers m) (take i new))" by simp
    have deps: "\<exists>j < i. \<exists>v. call_name (new ! j) = d
                              \<and> call_outcome (new ! j) = Returns (Plain v)
                              \<and> call_map (new ! i) d = Some v"
      if d: "d \<in> set (deps_of ?g (call_name (new ! i)))" and k: "d \<in> set (keys ?g)" for d
    proof -
      from d have d': "d \<in> set (deps_of (dependencies ?flow) (call_name (new ! i)))" by simp
      from k have "has_key d (steps ?flow)" by simp
      from ec(4)[OF d' this] obtain j where j: "j < i" "call_name (new ! j) = d" by blast
      from ec(2) j(1) have "\<not> bad_call (new ! j)" by blast
      from good_call_value[OF this]
      have o: "call_outcome (new ! j) = Returns (Plain (returned_value (new ! j)))" .
      from ec(3)[of "containers m"] j
      have "record_calls (containers m) (take i new) d = Some (returned_value (new ! j))" by auto
      with inputData_of_hit[OF d, of "record_calls (containers m) (take i new)"] cm
      have "call_map (new ! i) d = Some (returned_value (new ! j))" by (simp add: read_prop_def)
      with j o show ?thesis by blast
    qed
    from sc val deps show ?thesis by blast
  qed
  from ts n(1) names all each show ?thesis by blast
qed

text \<open>
  Claim C7. Let \<open>w\<close> be the workflow that \<open>build\<close> or \<open>buildAsync\<close> has returned for a
  builder with \<open>plain_builder\<close> (no name in it is the name of a member of
  \<open>Object.prototype\<close>), as the build has left it. A \<open>refresh\<close> that returns
  has run the build flow again: it has called the implementation of every step of the
  base graph once, in the order \<open>topologicalSort\<close> gives for the base graph; each call was
  given, for each declared dependency, the value that the call of that dependency returned
  in this same run; and the container of each step is the value its call has just
  returned, whatever the store held before. With the step of the test, whose
  implementation increments a counter and returns it, the container is 1 after \<open>build\<close>
  and 2 after one \<open>refresh\<close>.
\<close>

theorem refresh_reruns_build_flow:
  assumes "build b wd = (Returned w, b', m0) \<or> buildAsync b wd = (Returned w, b', m0)"
    "plain_builder b" "refresh w m = (Returned (), m')"
  shows "(\<exists>order new. topologicalSort (wf_dependencies w) = Inr order
           \<and> calls m' = calls m @ new
           \<and> map call_name new = filter (\<lambda>n. n \<in> set (keys (wf_dependencies w))) order
           \<and> set (keys (wf_dependencies w)) \<subseteq> call_name ` set new
           \<and> (\<forall>i < length new. is_StepCall (new ! i)
                 \<and> (\<exists>v. call_outcome (new ! i) = Returns (Plain v)
                        \<and> containers m' (call_name (new ! i)) = Some v)
                 \<and> (\<forall>d \<in> set (deps_of (wf_dependencies w) (call_name (new ! i))).
                       d \<in> set (keys (wf_dependencies w)) \<longrightarrow>
                         (\<exists>j < i. \<exists>v. call_name (new ! j) = d
                              \<and> call_outcome (new ! j) = Returns (Plain v)
                              \<and> call_map (new ! i) d = Some v))))
       \<and> build counter_builder 0 =
           (Returned counter_workflow, createBuildFlow counter_builder,
            \<lparr>containers = [''refreshTest'' \<mapsto> Val 1], world = 1,
             calls = [StepCall ''refreshTest'' Map.empty (Returns (Plain (Val 1)))]\<rparr>)
       \<and> refresh counter_workflow
           \<lparr>containers = [''refreshTest'' \<mapsto> Val 1], world = 1,
            calls = [StepCall ''refreshTest'' Map.empty (Returns (Plain (Val 1)))]\<rparr> =
           (Returned (),
            \<lparr>containers = [''refreshTest'' \<mapsto> Val 2], world = 2,
             calls = [StepCall ''refreshTest'' Map.empty (Returns (Plain (Val 1))),
                      StepCall ''refreshTest'' Map.empty (Returns (Plain (Val 2)))]\<rparr>)"
proof -
  from assms(2) have dk: "distinct (keys (b_dependencies b))"
    by (simp add: plain_builder_def keys_def)
  from build_Returned(3,5)[OF assms(1) dk]
  have fl: "map_of (flows w) (buildFlowName w) = Some (build_flow_of (wf_dependencies w))"
    by simp
  from refresh_Returned[OF assms(3)] obtain r where
    "execute w (buildFlowName w) m = (Returned r, m')" by blast
  from build_flow_run[OF fl this] build_counter refresh_counter show ?thesis by blast
qed

theorem refresh_reruns_build_flow_witness:
  "build counter_builder 0 =
     (Returned counter_workflow, createBuildFlow counter_builder,
      \<lparr>containers = [''refreshTest'' \<mapsto> Val 1], world = 1,
       calls = [StepCall ''refreshTest'' Map.empty (Returns (Plain (Val 1)))]\<rparr>)
   \<and> plain_builder counter_builder
   \<and> refresh counter_workflow
       \<lparr>containers = [''refreshTest'' \<mapsto> Val 1], world = 1,
        calls = [StepCall ''refreshTest'' Map.empty (Returns (Plain (Val 1)))]\<rparr> =
       (Returned (),
        \<lparr>containers = [''refreshTest'' \<mapsto> Val 2], world = 2,
         calls = [StepCall ''refreshTest'' Map.empty (Returns (Plain (Val 1))),
                  StepCall ''refreshTest'' Map.empty (Returns (Plain (Val 2)))]\<rparr>)
   \<and> (\<exists>new. [StepCall ''refreshTest'' Map.empty (Returns (Plain (Val 1))),
                StepCall ''refreshTest'' Map.empty (Returns (Plain (Val (2::nat))))]
               = [StepCall ''refreshTest'' Map.empty (Returns (Plain (Val 1)))] @ new
             \<and> ''refreshTest'' \<in> call_name ` set new)"
proof -
  let ?c1 = "StepCall ''refreshTest'' Map.empty (Returns (Plain (Val (1::nat))))"
  let ?c2 = "StepCall ''refreshTest'' Map.empty (Returns (Plain (Val (2::nat))))"
  let ?m1 = "\<lparr>containers = [''refreshTest'' \<mapsto> Val 1], world = 1::nat, calls = [?c1]\<rparr>"
  let ?m2 = "\<lparr>containers = [''refreshTest'' \<mapsto> Val 2], world = 2::nat, calls = [?c1, ?c2]\<rparr>"
  have b: "build counter_builder 0 = (Returned counter_workflow, createBuildFlow counter_builder, ?m1)
      \<or> buildAsync counter_builder 0
           = (Returned counter_workflow, createBuildFlow counter_builder, ?m1)"
    using build_counter by simp
  have k: "keys (wf_dependencies counter_workflow) = [''refreshTest'']"
    by (simp add: counter_workflow_def new_WorkflowInstance_def createBuildFlow_def
          counter_builder_def keys_def)
  from refresh_reruns_build_flow[OF b plain_counter_builder refresh_counter]
  obtain new where "calls ?m2 = calls ?m1 @ new"
    "set (keys (wf_dependencies counter_workflow)) \<subseteq> call_name ` set new" by blast
  with k have "\<exists>new. [?c1, ?c2] = [?c1] @ new \<and> ''refreshTest'' \<in> call_name ` set new"
    by auto
  with build_counter plain_counter_builder refresh_counter show ?thesis by simp
qed

section \<open>The build flow in the flow registry\<close>

lemma topologicalSort_acyclic:
  assumes "acyclic (dep_rel g)"
  shows "\<exists>order. topologicalSort g = Inr order"
proof -
  from sort_nodes_ok[OF assms sort_inv_init, of "keys g"] obtain s' where
    "sort_nodes g (keys g) \<lparr>result = [], visited = {}, temp = {}\<rparr> = Inr s'" by auto
  then show ?thesis by (simp add: topologicalSort_def)
qed

lemma build_acyclic:
  assumes "build b wd = (Returned w, b', m0) \<or> buildAsync b wd = (Returned w, b', m0)"
  shows "acyclic (dep_rel (b_dependencies b))"
proof -
  from assms have "checkForCircularDependencies b = None"
    by (auto simp: build_def buildAsync_def split: option.splits)
  then have "\<not> hasCircularDependency (b_dependencies b) None"
    by (simp add: checkForCircularDependencies_def split: if_splits)
  then show ?thesis by (rule hasCircularDependency_complete)
qed

lemma wrap_error_not_missing: "wrap_error x e \<noteq> flow_missing f"
  by (simp add: wrap_error_def flow_missing_def)

lemma execute_found:
  assumes "map_of (flows w) f = Some flow" "calculateFlowExecutionOrder flow = Inr order"
  shows "fst (execute w f m) \<noteq> Thrown (flow_missing f)"
proof
  assume a: "fst (execute w f m) = Thrown (flow_missing f)"
  then have "execute w f m = (Thrown (flow_missing f), snd (execute w f m))"
    by (metis prod.collapse)
  from execute_Thrown[OF assms this] obtain pre x post good where
    alt: "(calls (snd (execute w f m)) = calls m @ good
             \<and> flow_missing f = wrap_error x not_a_function)
          \<or> (\<exists>c. calls (snd (execute w f m)) = calls m @ good @ [c] \<and> call_name c = x
                 \<and> bad_call c \<and> flow_missing f = sync_error c
                 \<and> (is_StepCall c \<longleftrightarrow> f = buildFlowName w)
                 \<and> has_key x (steps flow)
                 \<and> call_map c = (if f = buildFlowName w
                           then inputData_of (deps_of (wf_dependencies w) x)
                                  (record_calls (containers m) good)
                           else record_calls Map.empty good))"
    by blast
  then show False
  proof (elim disjE exE conjE)
    assume "flow_missing f = wrap_error x not_a_function"
    then show False by (metis wrap_error_not_missing)
  next
    fix c :: "'a call"
    assume "flow_missing f = sync_error c"
    then show False by (metis sync_error_def wrap_error_not_missing)
  qed
qed

lemma executeAsync_found:
  assumes "map_of (flows w) f = Some flow" "calculateFlowExecutionOrder flow = Inr order"
  shows "fst (executeAsync w f m) \<noteq> Thrown (flow_missing f)"
proof
  assume a: "fst (executeAsync w f m) = Thrown (flow_missing f)"
  then have ex: "executeAsync w f m = (Thrown (flow_missing f), snd (executeAsync w f m))"
    by (metis prod.collapse)
  from executeAsync_levels[OF assms(2)] obtain levels where
    lv: "groupStepsByLevel (Suc (length order)) flow order = Some levels" by blast
  obtain r0 s where run: "execute_levels w f flow levels (start_run m) = (r0, s)"
    by (cases "execute_levels w f flow levels (start_run m)")
  with a assms lv have "r0 = Thrown (flow_missing f)"
    by (cases r0) (simp_all add: executeAsync_def)
  with run have run': "execute_levels w f flow levels (start_run m) = (Thrown (flow_missing f), s)"
    by simp
  from execute_levels_calls[OF run'] obtain new where "calls s = calls (start_run m) @ new" ..
  from execute_levels_Thrown[OF run' this] obtain x cause where
    "flow_missing f = wrap_error x cause" by blast
  then show False using wrap_error_not_missing[of x cause f] by simp
qed

lemma executeAsync_Returned_order:
  assumes "map_of (flows w) f = Some flow" "executeAsync w f m = (Returned r, m')"
  shows "\<exists>order. calculateFlowExecutionOrder flow = Inr order"
proof (cases "calculateFlowExecutionOrder flow")
  case (Inl e)
  with assms show ?thesis by (simp add: executeAsync_def)
next
  case (Inr order)
  then show ?thesis by blast
qed

text \<open>
  A concurrent run of the build flow that returns has called the implementation of every
  step of the base graph, level by level, and has put the value of each call (what it
  returned, or what the promise it returned was fulfilled with) in the container store.
\<close>

lemma build_flow_run_async:
  fixes w :: "('a, 'w) WorkflowInstance"
  assumes fl: "map_of (flows w) (buildFlowName w) = Some (build_flow_of (wf_dependencies w))"
    and ex: "executeAsync w (buildFlowName w) m = (Returned r, m')"
  shows "\<exists>order levels new. topologicalSort (wf_dependencies w) = Inr order
           \<and> groupStepsByLevel (Suc (length order))
                (build_flow_of (wf_dependencies w) :: ('a, 'w) FlowDefinition) order = Some levels
           \<and> calls m' = calls m @ new
           \<and> map call_name new = filter (\<lambda>n. n \<in> set (keys (wf_dependencies w))) (concat levels)
           \<and> set (keys (wf_dependencies w)) \<subseteq> call_name ` set new
           \<and> (\<forall>c \<in> set new. is_StepCall c
                 \<and> (\<exists>v. async_value c = Some v \<and> containers m' (call_name c) = Some v))"
proof -
  let ?g = "wf_dependencies w"
  let ?flow = "build_flow_of ?g :: ('a, 'w) FlowDefinition"
  let ?f = "buildFlowName w"
  from executeAsync_Returned_order[OF fl ex] obtain order where
    ord: "calculateFlowExecutionOrder ?flow = Inr order" by blast
  then have ts: "topologicalSort ?g = Inr order" by (simp add: calculateFlowExecutionOrder_def)
  from executeAsync_levels[OF ord] obtain levels stepLevels where
    lv: "groupStepsByLevel (Suc (length order)) ?flow order = Some levels"
    and dl: "distinct (concat levels)" and sl: "set (concat levels) = set order" by blast
  obtain r0 s where run: "execute_levels w ?f ?flow levels (start_run m) = (r0, s)"
    by (cases "execute_levels w ?f ?flow levels (start_run m)")
  with ex fl ord lv have "r0 = Returned ()" and m': "m' = end_run s"
    by (cases r0; simp add: executeAsync_def)+
  then obtain u where "r0 = Returned u" by blast
  with run have run': "execute_levels w ?f ?flow levels (start_run m) = (Returned u, s)" by simp
  from execute_levels_calls[OF run'] obtain new where cs: "calls s = calls (start_run m) @ new" ..
  from execute_levels_Returned[OF run' cs]
  have names: "map call_name new = filter (\<lambda>n. n \<in> set (keys ?g)) (concat levels)"
    and hv: "\<forall>c \<in> set new. has_value c" by simp_all
  from execute_levels_names[OF run' cs] have sc: "\<forall>c \<in> set new. is_StepCall c" by simp
  from execute_levels_store[OF run' cs refl dl]
  have st: "\<forall>c \<in> set new. has_value c \<longrightarrow> containers s (call_name c) = async_value c" by blast
  from topologicalSort_Inr(3)[OF ts] sl have ks: "set (keys ?g) \<subseteq> set (concat levels)" by simp
  have "set (map call_name new) = set (filter (\<lambda>n. n \<in> set (keys ?g)) (concat levels))"
    by (simp only: names)
  with ks have all: "set (keys ?g) \<subseteq> call_name ` set new" by auto
  have each: "\<forall>c \<in> set new. is_StepCall c
                 \<and> (\<exists>v. async_value c = Some v \<and> containers m' (call_name c) = Some v)"
  proof
    fix c assume c: "c \<in> set new"
    with hv obtain v where v: "async_value c = Some v" by (auto simp: has_value_def)
    with st c hv m' have "containers m' (call_name c) = Some v" by simp
    with sc c v show "is_StepCall c
                 \<and> (\<exists>v. async_value c = Some v \<and> containers m' (call_name c) = Some v)" by blast
  qed
  from cs m' have "calls m' = calls m @ new" by simp
  with ts lv names all each show ?thesis by blast
qed

text \<open>
  A builder on which a user has declared a flow under the name of the build flow: one step
  \<open>a\<close> whose implementation returns 1, and the user flow \<open>__build__\<close> whose action for
  \<open>a\<close> returns 99.
\<close>

definition shadow_base :: "(nat, unit) WorkflowBuilder" where
  "shadow_base =
     \<lparr>b_steps = [(''a'', \<lambda>inputData wd. (Returns (Plain (Val 1)), wd))],
      b_dependencies = [(''a'', [])],
      b_flows = [],
      b_buildFlowName = ''__build__''\<rparr>"

definition shadow_flow :: "(nat, unit) FlowDefinition" where
  "shadow_flow =
     \<lparr>steps = [(''a'', \<lparr>action = (\<lambda>container c wd. (Returns (Plain (Val 99)), wd))\<rparr>)],
      dependencies = [(''a'', [])]\<rparr>"

definition shadow_builder :: "(nat, unit) WorkflowBuilder" where
  "shadow_builder = shadow_base\<lparr>b_flows := [(''__build__'', shadow_flow)]\<rparr>"

definition shadow_workflow :: "(nat, unit) WorkflowInstance" where
  "shadow_workflow = new_WorkflowInstance (createBuildFlow shadow_builder)"

lemma shadow_builder_api:
  "defineFlow ''__build__'' shadow_base
     = Inr \<lparr>workflowBuilder = shadow_base, flowName = ''__build__'', flowSteps = [],
            flowDependencies = []\<rparr>"
  "map_sum id (\<lambda>implementer. endFlow (withFlowAction
        (\<lambda>container c wd. (Returns (Plain (Val 99)), wd)) implementer))
     (addFlowStep ''a'' []
        \<lparr>workflowBuilder = shadow_base, flowName = ''__build__'', flowSteps = [],
         flowDependencies = []\<rparr>) = Inr shadow_builder"
  by (simp_all add: defineFlow_def addFlowStep_def withFlowAction_def registerFlowAction_def
        endFlow_def registerFlow_def shadow_base_def shadow_builder_def shadow_flow_def
        in_object_def has_key_def Object_prototype_def)

lemma plain_shadow_builder: "plain_builder shadow_builder"
  by (simp add: plain_builder_def plain_flow_def shadow_builder_def shadow_base_def
        shadow_flow_def plain_names_def graph_names_def Object_prototype_def)

lemma build_shadow:
  "build shadow_builder () =
     (Returned shadow_workflow, createBuildFlow shadow_builder,
      \<lparr>containers = [''a'' \<mapsto> Val 1], world = (),
       calls = [StepCall ''a'' Map.empty (Returns (Plain (Val 1)))]\<rparr>)"
  by (simp add: build_def checkForCircularDependencies_def hasCircularDependency_def
        hasCycle.simps keys_def deps_of_def validateFlows_def validateFlow_def
        check_flow_steps_def in_object_def has_key_def shadow_workflow_def
        createBuildFlow_def new_WorkflowInstance_def shadow_builder_def shadow_base_def
        shadow_flow_def fresh_machine_def
        execute_def calculateFlowExecutionOrder_def topologicalSort_def visit.simps
        execute_step_def inputData_of_def start_run_def end_run_def machine.defs run_state.defs)

lemma execute_shadow:
  "execute shadow_workflow ''__build__'' \<lparr>containers = Map.empty, world = (), calls = []\<rparr> =
     (Returned \<lparr>flow_results = [''a'' \<mapsto> Val 1], success = True\<rparr>,
      \<lparr>containers = [''a'' \<mapsto> Val 1], world = (),
       calls = [StepCall ''a'' Map.empty (Returns (Plain (Val 1)))]\<rparr>)"
  by (simp add: keys_def deps_of_def has_key_def shadow_workflow_def
        createBuildFlow_def new_WorkflowInstance_def shadow_builder_def shadow_base_def
        shadow_flow_def
        execute_def calculateFlowExecutionOrder_def topologicalSort_def visit.simps
        execute_step_def inputData_of_def start_run_def end_run_def machine.defs run_state.defs)

text \<open>
  Claim C10. Let \<open>w\<close> be the workflow that \<open>build\<close> or \<open>buildAsync\<close> has returned for a
  builder with \<open>plain_builder\<close> (no name in it is the name of a member of
  \<open>Object.prototype\<close>), as the build has left it. The flow registry of \<open>w\<close>
  (and of the builder) has the synthesized build flow under the name \<open>__build__\<close>,
  whatever the builder had under that name before. So \<open>execute\<close> and \<open>executeAsync\<close> do
  not refuse the name; \<open>refresh\<close> is \<open>execute\<close> of that name, with the results dropped; a
  run of \<open>execute\<close> or \<open>executeAsync\<close> of that name that returns has called the
  implementation of every step of the base graph and has put the value of each call in
  the container of its step. And on a builder that has no flow of that name,
  \<open>defineFlow\<close> of \<open>__build__\<close> throws nothing and starts a flow of that name.
\<close>

theorem build_flow_in_registry:
  fixes w :: "('a, 'w) WorkflowInstance"
  assumes "build b wd = (Returned w, b', m0) \<or> buildAsync b wd = (Returned w, b', m0)"
    "plain_builder b"
  shows "buildFlowName w = ''__build__''
       \<and> map_of (flows w) ''__build__'' = Some (build_flow_of (wf_dependencies w))
       \<and> map_of (b_flows b') ''__build__'' = Some (build_flow_of (b_dependencies b))
       \<and> fst (execute w ''__build__'' m) \<noteq> Thrown (flow_missing ''__build__'')
       \<and> fst (executeAsync w ''__build__'' m) \<noteq> Thrown (flow_missing ''__build__'')
       \<and> refresh w m =
            (case execute w ''__build__'' m of
               (Returned r, m') \<Rightarrow> (Returned (), m')
             | (Thrown e, m') \<Rightarrow> (Thrown e, m')
             | (NeverSettled, m') \<Rightarrow> (NeverSettled, m'))
       \<and> (\<forall>r m'. execute w ''__build__'' m = (Returned r, m') \<longrightarrow>
             (\<exists>new. calls m' = calls m @ new
                \<and> set (keys (wf_dependencies w)) \<subseteq> call_name ` set new
                \<and> (\<forall>c \<in> set new. is_StepCall c
                      \<and> (\<exists>v. call_outcome c = Returns (Plain v)
                             \<and> containers m' (call_name c) = Some v))))
       \<and> (\<forall>r m'. executeAsync w ''__build__'' m = (Returned r, m') \<longrightarrow>
             (\<exists>new. calls m' = calls m @ new
                \<and> set (keys (wf_dependencies w)) \<subseteq> call_name ` set new
                \<and> (\<forall>c \<in> set new. is_StepCall c
                      \<and> (\<exists>v. async_value c = Some v
                             \<and> containers m' (call_name c) = Some v))))
       \<and> (\<forall>b0 :: ('a, 'w) WorkflowBuilder. \<not> has_key ''__build__'' (b_flows b0) \<longrightarrow>
             defineFlow ''__build__'' b0
               = Inr \<lparr>workflowBuilder = b0, flowName = ''__build__'', flowSteps = [],
                      flowDependencies = []\<rparr>)"
proof -
  from assms(2) have dk: "distinct (keys (b_dependencies b))"
    and bn: "b_buildFlowName b = ''__build__''"
    by (simp_all add: plain_builder_def keys_def)
  note br = build_Returned[OF assms(1) dk]
  from br(2) bn have name: "buildFlowName w = ''__build__''" by simp
  from br(3,5) have fl: "map_of (flows w) (buildFlowName w) = Some (build_flow_of (wf_dependencies w))"
    by simp
  with name have fl': "map_of (flows w) ''__build__'' = Some (build_flow_of (wf_dependencies w))"
    by simp
  from br(6) createBuildFlow_flows[OF dk] bn
  have bf: "map_of (b_flows b') ''__build__'' = Some (build_flow_of (b_dependencies b))" by simp
  from build_acyclic[OF assms(1)] br(3) have "acyclic (dep_rel (wf_dependencies w))" by simp
  from topologicalSort_acyclic[OF this] obtain order where
    "topologicalSort (wf_dependencies w) = Inr order" ..
  then have ord: "calculateFlowExecutionOrder
      (build_flow_of (wf_dependencies w) :: ('a, 'w) FlowDefinition) = Inr order"
    by (simp add: calculateFlowExecutionOrder_def)
  from execute_found[OF fl' ord] have a1:
    "fst (execute w ''__build__'' m) \<noteq> Thrown (flow_missing ''__build__'')" .
  from executeAsync_found[OF fl' ord] have a2:
    "fst (executeAsync w ''__build__'' m) \<noteq> Thrown (flow_missing ''__build__'')" .
  have rf: "refresh w m =
            (case execute w ''__build__'' m of
               (Returned r, m') \<Rightarrow> (Returned (), m')
             | (Thrown e, m') \<Rightarrow> (Thrown e, m')
             | (NeverSettled, m') \<Rightarrow> (NeverSettled, m'))"
    by (simp add: refresh_def name)
  have blocking: "\<forall>r m'. execute w ''__build__'' m = (Returned r, m') \<longrightarrow>
             (\<exists>new. calls m' = calls m @ new
                \<and> set (keys (wf_dependencies w)) \<subseteq> call_name ` set new
                \<and> (\<forall>c \<in> set new. is_StepCall c
                      \<and> (\<exists>v. call_outcome c = Returns (Plain v)
                             \<and> containers m' (call_name c) = Some v)))"
  proof (intro allI impI)
    fix r m' assume "execute w ''__build__'' m = (Returned r, m')"
    with name have "execute w (buildFlowName w) m = (Returned r, m')" by simp
    from build_flow_run[OF fl this] obtain new where n: "calls m' = calls m @ new"
      "set (keys (wf_dependencies w)) \<subseteq> call_name ` set new"
      "\<forall>i < length new. is_StepCall (new ! i)
                 \<and> (\<exists>v. call_outcome (new ! i) = Returns (Plain v)
                        \<and> containers m' (call_name (new ! i)) = Some v)" by blast
    from n(3) have "\<forall>c \<in> set new. is_StepCall c
                      \<and> (\<exists>v. call_outcome c = Returns (Plain v)
                             \<and> containers m' (call_name c) = Some v)"
      by (auto simp: in_set_conv_nth)
    with n(1,2) show "\<exists>new. calls m' = calls m @ new
                \<and> set (keys (wf_dependencies w)) \<subseteq> call_name ` set new
                \<and> (\<forall>c \<in> set new. is_StepCall c
                      \<and> (\<exists>v. call_outcome c = Returns (Plain v)
                             \<and> containers m' (call_name c) = Some v))" by blast
  qed
  have concurrent: "\<forall>r m'. executeAsync w ''__build__'' m = (Returned r, m') \<longrightarrow>
             (\<exists>new. calls m' = calls m @ new
                \<and> set (keys (wf_dependencies w)) \<subseteq> call_name ` set new
                \<and> (\<forall>c \<in> set new. is_StepCall c
                      \<and> (\<exists>v. async_value c = Some v
                             \<and> containers m' (call_name c) = Some v)))"
  proof (intro allI impI)
    fix r m' assume "executeAsync w ''__build__'' m = (Returned r, m')"
    with name have "executeAsync w (buildFlowName w) m = (Returned r, m')" by simp
    from build_flow_run_async[OF fl this]
    show "\<exists>new. calls m' = calls m @ new
                \<and> set (keys (wf_dependencies w)) \<subseteq> call_name ` set new
                \<and> (\<forall>c \<in> set new. is_StepCall c
                      \<and> (\<exists>v. async_value c = Some v
                             \<and> containers m' (call_name c) = Some v))" by blast
  qed
  have df: "\<forall>b0 :: ('a, 'w) WorkflowBuilder. \<not> has_key ''__build__'' (b_flows b0) \<longrightarrow>
             defineFlow ''__build__'' b0
               = Inr \<lparr>workflowBuilder = b0, flowName = ''__build__'', flowSteps = [],
                      flowDependencies = []\<rparr>"
    by (simp add: defineFlow_def in_object_def Object_prototype_def)
  from name fl' bf a1 a2 rf blocking concurrent df show ?thesis by blast
qed

theorem build_flow_in_registry_witness:
  "build shadow_builder () =
     (Returned shadow_workflow, createBuildFlow shadow_builder,
      \<lparr>containers = [''a'' \<mapsto> Val 1], world = (),
       calls = [StepCall ''a'' Map.empty (Returns (Plain (Val 1)))]\<rparr>)
   \<and> plain_builder shadow_builder
   \<and> map_of (b_flows shadow_builder) ''__build__'' = Some shadow_flow
   \<and> \<not> has_key ''__build__'' (b_flows shadow_base)
   \<and> defineFlow ''__build__'' shadow_base
       = Inr \<lparr>workflowBuilder = shadow_base, flowName = ''__build__'', flowSteps = [],
              flowDependencies = []\<rparr>
   \<and> map_of (flows shadow_workflow) ''__build__''
       = Some (build_flow_of (wf_dependencies shadow_workflow))
   \<and> execute shadow_workflow ''__build__'' \<lparr>containers = Map.empty, world = (), calls = []\<rparr> =
       (Returned \<lparr>flow_results = [''a'' \<mapsto> Val 1], success = True\<rparr>,
        \<lparr>containers = [''a'' \<mapsto> Val 1], world = (),
         calls = [StepCall ''a'' Map.empty (Returns (Plain (Val 1)))]\<rparr>)"
proof -
  let ?m1 = "\<lparr>containers = [''a'' \<mapsto> Val 1], world = (),
       calls = [StepCall ''a'' Map.empty (Returns (Plain (Val (1::nat))))]\<rparr>"
  have b: "build shadow_builder () = (Returned shadow_workflow, createBuildFlow shadow_builder, ?m1)
      \<or> buildAsync shadow_builder ()
           = (Returned shadow_workflow, createBuildFlow shadow_builder, ?m1)"
    using build_shadow by simp
  have uf: "map_of (b_flows shadow_builder) ''__build__'' = Some shadow_flow"
    by (simp add: shadow_builder_def)
  have nk: "\<not> has_key ''__build__'' (b_flows shadow_base)"
    by (simp add: shadow_base_def has_key_def)
  note t = build_flow_in_registry[OF b plain_shadow_builder,
      of "\<lparr>containers = Map.empty, world = (), calls = []\<rparr>"]
  from t have r: "map_of (flows shadow_workflow) ''__build__''
       = Some (build_flow_of (wf_dependencies shadow_workflow))" by blast
  from t nk have d: "defineFlow ''__build__'' shadow_base
       = Inr \<lparr>workflowBuilder = shadow_base, flowName = ''__build__'', flowSteps = [],
              flowDependencies = []\<rparr>" by blast
  from build_shadow plain_shadow_builder uf nk d r execute_shadow show ?thesis by blast
qed

end
